theory Spec2Isabelle
  imports Complex_Main "HOL-Library.AList" "HOL-Library.Multiset" "HOL-Library.Word"
begin

section \<open>The Go runtime as far as \<open>influxdb.go\<close> needs it\<close>

subsection \<open>Maps and their iteration order\<close>

text \<open>
  A Go map is an association list with distinct keys; what it maps is read with
  \<open>map_of\<close>. A \<^verbatim>\<open>for k, v := range m\<close> loop visits the entries in an order
  the runtime chooses. The choice is a list of numbers: the first number selects
  (modulo the number of entries left) the entry visited first, and so on; when the
  numbers run out the remaining entries are visited as they stand. Every list of
  numbers gives a permutation, and every permutation is given by some list.
\<close>

type_synonym ('k, 'v) gomap = "('k \<times> 'v) list"

fun range_order :: "nat list \<Rightarrow> 'a list \<Rightarrow> 'a list" where
  "range_order ns [] = []"
| "range_order [] (x # xs) = x # xs"
| "range_order (n # ns) (x # xs) =
     (let i = n mod length (x # xs)
      in ((x # xs) ! i) # range_order ns (take i (x # xs) @ drop (Suc i) (x # xs)))"

subsection \<open>The heap of tag maps\<close>

text \<open>
  A value of type \<^verbatim>\<open>map[string]string\<close> is a reference: \<open>None\<close> is the nil
  map, \<open>Some a\<close> the map stored at address \<open>a\<close>. The heap is the list of all maps
  allocated so far, an address being a position in it; \<^verbatim>\<open>map[string]string{}\<close>
  appends an empty map. The runtime state also holds the iteration orders that the
  coming \<^verbatim>\<open>range\<close> loops will use.
\<close>

type_synonym tagmap = "(string, string) gomap"
type_synonym mapref = "nat option"

record runtime =
  heap :: "tagmap list"
  orders :: "nat list list"

definition entries :: "runtime \<Rightarrow> mapref \<Rightarrow> tagmap" where
  "entries rt m = (case m of None \<Rightarrow> [] | Some a \<Rightarrow> heap rt ! a)"

definition store :: "nat \<Rightarrow> string \<Rightarrow> string \<Rightarrow> runtime \<Rightarrow> runtime" where
  \<comment> \<open>\<^verbatim>\<open>m[k] = v\<close> for the map at address \<open>a\<close>\<close>
  "store a k v rt = rt\<lparr>heap := (heap rt)[a := AList.update k v (heap rt ! a)]\<rparr>"

definition next_order :: "runtime \<Rightarrow> nat list \<times> runtime" where
  "next_order rt =
     (case orders rt of [] \<Rightarrow> ([], rt) | ord # rest \<Rightarrow> (ord, rt\<lparr>orders := rest\<rparr>))"

definition wf_tags :: "runtime \<Rightarrow> mapref \<Rightarrow> bool" where
  \<comment> \<open>a map reference of a running program: nil, or an allocated map with distinct keys\<close>
  "wf_tags rt m =
     (case m of None \<Rightarrow> True
      | Some a \<Rightarrow> a < length (heap rt) \<and> distinct (map fst (heap rt ! a)))"

subsection \<open>Panics, integers, floats, time\<close>

datatype panic = IndexOutOfRange | SliceBoundsOutOfRange

type_synonym int64 = "64 word"

text \<open>
  \<^verbatim>\<open>float64\<close> is a type parameter \<open>'f\<close>, and the conversion \<^verbatim>\<open>float64(n)\<close>
  of an \<^verbatim>\<open>int64\<close> a parameter \<open>float64\<close> of the functions that convert. A field
  value of a point has type \<^verbatim>\<open>interface{}\<close> and holds one or the other.
\<close>

datatype 'f fieldvalue = Int64 int64 | Float64 'f

text \<open>
  A \<^verbatim>\<open>time.Time\<close> is the number of nanoseconds since Go's zero time, a
  \<^verbatim>\<open>time.Duration\<close> a number of nanoseconds. \<^verbatim>\<open>Time.Truncate\<close> rounds down
  to a multiple of the duration, counted from the zero time, and returns the time as
  it is when the duration is not positive.
\<close>

definition Truncate :: "int \<Rightarrow> int \<Rightarrow> int" where
  "Truncate t d = (if d \<le> 0 then t else t - t mod d)"

definition slice :: "'a list \<Rightarrow> int \<Rightarrow> int \<Rightarrow> panic + 'a list" where
  \<comment> \<open>\<^verbatim>\<open>xs[i:e]\<close>, which panics when the bounds are out of order or out of range;
      the range is the length, not the capacity, which nothing here slices beyond\<close>
  "slice xs i e =
     (if 0 \<le> i \<and> i \<le> e \<and> e \<le> int (length xs)
      then Inr (take (nat (e - i)) (drop (nat i) xs))
      else Inl SliceBoundsOutOfRange)"

section \<open>The metrics registry\<close>

text \<open>
  The registry and its metrics belong to another package. A metric is given by the
  snapshot it returns at this tick, and a snapshot by what its methods return;
  \<open>Other\<close> is any registered value that none of the six cases of the type switch
  matches. \<open>Percentiles\<close> takes the quantiles and returns a slice, of whatever
  length.
\<close>

record CounterSnapshot =
  c_Count :: int64

record GaugeSnapshot =
  g_Value :: int64

record 'f GaugeFloat64Snapshot =
  gf_Value :: 'f

record 'f HistogramSnapshot =
  h_Count :: int64
  h_Max :: int64
  h_Mean :: 'f
  h_Min :: int64
  h_StdDev :: 'f
  h_Variance :: 'f
  h_Percentiles :: "real list \<Rightarrow> 'f list"

record 'f MeterSnapshot =
  m_Count :: int64
  m_Rate1 :: 'f
  m_Rate5 :: 'f
  m_RateMean :: 'f

record 'f TimerSnapshot =
  t_Count :: int64
  t_Max :: int64
  t_Mean :: 'f
  t_Min :: int64
  t_StdDev :: 'f
  t_Variance :: 'f
  t_Percentiles :: "real list \<Rightarrow> 'f list"
  t_Rate1 :: 'f
  t_Rate5 :: 'f
  t_RateMean :: 'f

datatype 'f metric =
    Counter CounterSnapshot
  | Gauge GaugeSnapshot
  | GaugeFloat64 "'f GaugeFloat64Snapshot"
  | Histogram "'f HistogramSnapshot"
  | Meter "'f MeterSnapshot"
  | Timer "'f TimerSnapshot"
  | Other

section \<open>The InfluxDB client\<close>

record 'f Point =
  Measurement :: string
  Tags :: mapref
  Fields :: "(string, 'f fieldvalue) gomap"
  Time :: int

record 'f BatchPoints =
  Points :: "'f Point list"
  Database :: string

record 'u Config =
  URL :: 'u
  Username :: string
  Password :: string
  UnsafeSsl :: bool

section \<open>The reporter\<close>

text \<open>
  \<open>reg\<close> is the registry as \<^verbatim>\<open>Each\<close> walks it at this tick: the names and
  metrics in the order of the visit. \<open>client\<close> is a pointer, \<open>None\<close> when nil.
\<close>

record ('f, 'u, 'c) reporter =
  reg :: "(string \<times> 'f metric) list"
  interval :: int
  align :: bool
  url :: 'u
  database :: string
  unsafeSsl :: bool
  maxBatchSize :: int
  measurement :: string
  username :: string
  password :: string
  tags :: mapref
  client :: "'c option"

datatype 'e logline =
    UnableToParseUrl string 'e
  | UnableToMakeClient 'e

datatype ('f, 'u, 'c) started = Returned | Run "('f, 'u, 'c) reporter"

definition makeClient ::
  "('u Config \<Rightarrow> 'c option \<times> 'e option) \<Rightarrow> ('f, 'u, 'c) reporter
     \<Rightarrow> ('f, 'u, 'c) reporter \<times> 'e option" where
  "makeClient NewClient r =
     (let (c, err) = NewClient \<lparr>URL = url r, Username = username r,
                                Password = password r, UnsafeSsl = unsafeSsl r\<rparr>
      in (r\<lparr>client := c\<rparr>, err))"

text \<open>
  \<^verbatim>\<open>InfluxDBWithTags\<close> returns nothing; what it does is the lines it logs and
  whether it ends in \<^verbatim>\<open>rep.run()\<close>, the loop that never returns.
\<close>

definition InfluxDBWithTags ::
  "(string \<Rightarrow> 'e + 'u) \<Rightarrow> ('u Config \<Rightarrow> 'c option \<times> 'e option)
     \<Rightarrow> (string \<times> 'f metric) list \<Rightarrow> int \<Rightarrow> string \<Rightarrow> string \<Rightarrow> string \<Rightarrow> string
     \<Rightarrow> string \<Rightarrow> mapref \<Rightarrow> bool \<Rightarrow> bool \<Rightarrow> int
     \<Rightarrow> 'e logline list \<times> ('f, 'u, 'c) started" where
  "InfluxDBWithTags Parse NewClient r d url' database' measurement' username' password'
       tags' align' unsafeSsl' maxBatchSize' =
     (case Parse url' of
        Inl err \<Rightarrow> ([UnableToParseUrl url' err], Returned)
      | Inr u \<Rightarrow>
          (let rep = \<lparr>reg = r, interval = d, align = align', url = u,
                      database = database', unsafeSsl = unsafeSsl',
                      maxBatchSize = maxBatchSize', measurement = measurement',
                      username = username', password = password', tags = tags',
                      client = None\<rparr>
           in case makeClient NewClient rep of
                (rep', Some err) \<Rightarrow> ([UnableToMakeClient err], Returned)
              | (rep', None) \<Rightarrow> ([], Run rep')))"

subsection \<open>bucketTags\<close>

definition bucketTags :: "string \<Rightarrow> mapref \<Rightarrow> runtime \<Rightarrow> mapref \<times> runtime" where
  "bucketTags bucket tags' rt =
     (let m = length (heap rt);
          rt = rt\<lparr>heap := heap rt @ [[]]\<rparr>;
          (ord, rt) = next_order rt;
          rt = fold (\<lambda>(tk, tv). store m tk tv) (range_order ord (entries rt tags')) rt;
          rt = store m ''bucket'' bucket rt
      in (Some m, rt))"

subsection \<open>send\<close>

definition quantiles :: "real list" where
  "quantiles = [0.5, 0.75, 0.95, 0.99]"

definition percentiles4 :: "'f list \<Rightarrow> panic + 'f \<times> 'f \<times> 'f \<times> 'f" where
  \<comment> \<open>\<^verbatim>\<open>ps[0]\<close>, \<^verbatim>\<open>ps[1]\<close>, \<^verbatim>\<open>ps[2]\<close>, \<^verbatim>\<open>ps[3]\<close>: an index beyond the
      length panics\<close>
  "percentiles4 ps =
     (case ps of
        p0 # p1 # p2 # p3 # _ \<Rightarrow> Inr (p0, p1, p2, p3)
      | _ \<Rightarrow> Inl IndexOutOfRange)"

text \<open>
  The body of the three \<^verbatim>\<open>for k, v := range fields\<close> loops, which differ in the
  field key only: one point per entry, in the order of the visit.
\<close>

fun range_fields ::
  "('f, 'u, 'c) reporter \<Rightarrow> int \<Rightarrow> string \<Rightarrow> (string, 'f) gomap \<Rightarrow> 'f Point list
     \<Rightarrow> runtime \<Rightarrow> 'f Point list \<times> runtime" where
  "range_fields r now key [] pts rt = (pts, rt)"
| "range_fields r now key ((k, v) # kvs) pts rt =
     (let (tg, rt) = bucketTags k (tags r) rt
      in range_fields r now key kvs
           (pts @ [\<lparr>Measurement = measurement r, Tags = tg,
                     Fields = [(key, Float64 v)], Time = now\<rparr>]) rt)"

text \<open>
  The three map literals \<^verbatim>\<open>fields := map[string]float64{...}\<close>, entries in the
  order of the source text.
\<close>

definition histogram_fields ::
  "(int64 \<Rightarrow> 'f) \<Rightarrow> 'f HistogramSnapshot \<Rightarrow> 'f \<Rightarrow> 'f \<Rightarrow> 'f \<Rightarrow> 'f \<Rightarrow> (string, 'f) gomap" where
  "histogram_fields float64 ms p0 p1 p2 p3 =
     [(''count'', float64 (h_Count ms)),
      (''max'', float64 (h_Max ms)),
      (''mean'', h_Mean ms),
      (''min'', float64 (h_Min ms)),
      (''stddev'', h_StdDev ms),
      (''variance'', h_Variance ms),
      (''p50'', p0),
      (''p75'', p1),
      (''p95'', p2),
      (''p99'', p3)]"

definition meter_fields :: "(int64 \<Rightarrow> 'f) \<Rightarrow> 'f MeterSnapshot \<Rightarrow> (string, 'f) gomap" where
  "meter_fields float64 ms =
     [(''count'', float64 (m_Count ms)),
      (''m1'', m_Rate1 ms),
      (''m5'', m_Rate5 ms),
      (''mean'', m_RateMean ms)]"

definition timer_fields ::
  "(int64 \<Rightarrow> 'f) \<Rightarrow> 'f TimerSnapshot \<Rightarrow> 'f \<Rightarrow> 'f \<Rightarrow> 'f \<Rightarrow> 'f \<Rightarrow> (string, 'f) gomap" where
  "timer_fields float64 ms p0 p1 p2 p3 =
     [(''count'', float64 (t_Count ms)),
      (''max'', float64 (t_Max ms)),
      (''mean'', t_Mean ms),
      (''min'', float64 (t_Min ms)),
      (''stddev'', t_StdDev ms),
      (''variance'', t_Variance ms),
      (''p50'', p0),
      (''p75'', p1),
      (''p95'', p2),
      (''p99'', p3),
      (''m1'', t_Rate1 ms),
      (''m5'', t_Rate5 ms),
      (''meanrate'', t_RateMean ms)]"

text \<open>The function that \<^verbatim>\<open>send\<close> passes to \<^verbatim>\<open>Each\<close>: the type switch.\<close>

fun send_each ::
  "(int64 \<Rightarrow> 'f) \<Rightarrow> ('f, 'u, 'c) reporter \<Rightarrow> int \<Rightarrow> string \<Rightarrow> 'f metric \<Rightarrow> 'f Point list
     \<Rightarrow> runtime \<Rightarrow> panic + 'f Point list \<times> runtime" where
  "send_each float64 r now name (Counter ms) pts rt =
     Inr (pts @ [\<lparr>Measurement = measurement r, Tags = tags r,
                   Fields = [(name @ ''.count'', Int64 (c_Count ms))], Time = now\<rparr>], rt)"
| "send_each float64 r now name (Gauge ms) pts rt =
     Inr (pts @ [\<lparr>Measurement = measurement r, Tags = tags r,
                   Fields = [(name @ ''.gauge'', Int64 (g_Value ms))], Time = now\<rparr>], rt)"
| "send_each float64 r now name (GaugeFloat64 ms) pts rt =
     Inr (pts @ [\<lparr>Measurement = measurement r, Tags = tags r,
                   Fields = [(name @ ''.gauge'', Float64 (gf_Value ms))], Time = now\<rparr>], rt)"
| "send_each float64 r now name (Histogram ms) pts rt =
     (case percentiles4 (h_Percentiles ms quantiles) of
        Inl p \<Rightarrow> Inl p
      | Inr (p0, p1, p2, p3) \<Rightarrow>
          (let fields = histogram_fields float64 ms p0 p1 p2 p3;
               (ord, rt) = next_order rt
           in Inr (range_fields r now (name @ ''.histogram'') (range_order ord fields) pts rt)))"
| "send_each float64 r now name (Meter ms) pts rt =
     (let fields = meter_fields float64 ms;
          (ord, rt) = next_order rt
      in Inr (range_fields r now (name @ ''.meter'') (range_order ord fields) pts rt))"
| "send_each float64 r now name (Timer ms) pts rt =
     (case percentiles4 (t_Percentiles ms quantiles) of
        Inl p \<Rightarrow> Inl p
      | Inr (p0, p1, p2, p3) \<Rightarrow>
          (let fields = timer_fields float64 ms p0 p1 p2 p3;
               (ord, rt) = next_order rt
           in Inr (range_fields r now (name @ ''.timer'') (range_order ord fields) pts rt)))"
| "send_each float64 r now name Other pts rt = Inr (pts, rt)"

text \<open>\<^verbatim>\<open>r.reg.Each(...)\<close>: the function is called on every entry, in the order of the visit.\<close>

fun Each ::
  "(string \<Rightarrow> 'm \<Rightarrow> 's \<Rightarrow> runtime \<Rightarrow> panic + 's \<times> runtime) \<Rightarrow> (string \<times> 'm) list \<Rightarrow> 's
     \<Rightarrow> runtime \<Rightarrow> panic + 's \<times> runtime" where
  "Each f [] s rt = Inr (s, rt)"
| "Each f ((name, i) # rest) s rt =
     (case f name i s rt of
        Inl p \<Rightarrow> Inl p
      | Inr (s', rt') \<Rightarrow> Each f rest s' rt')"

text \<open>
  The batch loop. \<open>Write\<close> is the client's write: from the client, the state of the
  world outside the program (the network, the remote store) and the heap it reads the
  tag maps from, it gives the error (or none) and the world after; it is taken to return.
  The last argument records the writes made so far; the loop never reads it. Go's
  \<^verbatim>\<open>int\<close> is an unbounded integer here: called from \<^verbatim>\<open>send\<close>, neither
  \<open>i\<close> nor \<open>batchEnd\<close> exceeds twice the number of points. Called with a batch size
  of zero the loop would not end, which is the result \<open>None\<close>.
\<close>

partial_function (option) send_loop ::
  "('c option \<Rightarrow> 'w \<Rightarrow> tagmap list \<Rightarrow> 'f BatchPoints \<Rightarrow> 'e option \<times> 'w)
     \<Rightarrow> ('f, 'u, 'c) reporter \<Rightarrow> runtime \<Rightarrow> 'f Point list \<Rightarrow> int \<Rightarrow> int \<Rightarrow> 'w
     \<Rightarrow> 'f BatchPoints list
     \<Rightarrow> (panic + 'e option \<times> 'w \<times> 'f BatchPoints list \<times> runtime) option" where
  "send_loop Write r rt pts maxBatchSize' i w written =
     (if i < int (length pts) then
        (let batchEnd = i + maxBatchSize';
             batchEnd = (if int (length pts) < batchEnd then int (length pts) else batchEnd)
         in case slice pts i batchEnd of
              Inl p \<Rightarrow> Some (Inl p)
            | Inr ps \<Rightarrow>
                (let bps = \<lparr>Points = ps, Database = database r\<rparr>
                 in case Write (client r) w (heap rt) bps of
                      (Some err, w') \<Rightarrow> Some (Inr (Some err, w', written @ [bps], rt))
                    | (None, w') \<Rightarrow>
                        send_loop Write r rt pts maxBatchSize' (i + maxBatchSize') w'
                          (written @ [bps])))
      else Some (Inr (None, w, written, rt)))"

declare send_loop.simps [code]

text \<open>
  \<^verbatim>\<open>send\<close> in its two halves. \<open>send_points\<close> is the first: the instant and
  the walk over the registry that collects the points; \<open>clock\<close> is what
  \<^verbatim>\<open>time.Now()\<close> returns. \<open>send_batches\<close> is the second: the batch size and
  the loop. The result of \<open>send\<close> is \<open>None\<close> when it does not return, a panic, or
  the error returned (or none) with the world after, the writes made and the runtime
  state.
\<close>

definition send_points ::
  "(int64 \<Rightarrow> 'f) \<Rightarrow> ('f, 'u, 'c) reporter \<Rightarrow> int \<Rightarrow> runtime
     \<Rightarrow> panic + 'f Point list \<times> runtime" where
  "send_points float64 r clock rt =
     (let now = clock;
          now = (if align r then Truncate now (interval r) else now)
      in Each (send_each float64 r now) (reg r) [] rt)"

definition send_batches ::
  "('c option \<Rightarrow> 'w \<Rightarrow> tagmap list \<Rightarrow> 'f BatchPoints \<Rightarrow> 'e option \<times> 'w)
     \<Rightarrow> ('f, 'u, 'c) reporter \<Rightarrow> 'f Point list \<Rightarrow> runtime \<Rightarrow> 'w
     \<Rightarrow> (panic + 'e option \<times> 'w \<times> 'f BatchPoints list \<times> runtime) option" where
  "send_batches Write r pts rt w =
     (let maxBatchSize' = maxBatchSize r;
          maxBatchSize' = (if maxBatchSize' \<le> 0 then int (length pts) else maxBatchSize')
      in send_loop Write r rt pts maxBatchSize' 0 w [])"

definition send ::
  "(int64 \<Rightarrow> 'f) \<Rightarrow> ('c option \<Rightarrow> 'w \<Rightarrow> tagmap list \<Rightarrow> 'f BatchPoints \<Rightarrow> 'e option \<times> 'w)
     \<Rightarrow> ('f, 'u, 'c) reporter \<Rightarrow> int \<Rightarrow> runtime \<Rightarrow> 'w
     \<Rightarrow> (panic + 'e option \<times> 'w \<times> 'f BatchPoints list \<times> runtime) option" where
  "send float64 Write r clock rt w =
     (case send_points float64 r clock rt of
        Inl p \<Rightarrow> Some (Inl p)
      | Inr (pts, rt) \<Rightarrow> send_batches Write r pts rt w)"

section \<open>What the claims speak of\<close>

definition bucket_of :: "runtime \<Rightarrow> 'f Point \<Rightarrow> string option" where
  \<comment> \<open>the value of the \<open>bucket\<close> tag of a point, when its tag map has one\<close>
  "bucket_of rt p = map_of (entries rt (Tags p)) ''bucket''"

text \<open>The metric kinds whose points get their tags from \<open>bucketTags\<close>.\<close>

fun bucketed :: "'f metric \<Rightarrow> bool" where
  "bucketed (Histogram ms) = True"
| "bucketed (Meter ms) = True"
| "bucketed (Timer ms) = True"
| "bucketed i = False"

definition fresh_tags :: "runtime \<Rightarrow> runtime \<Rightarrow> 'f Point list \<Rightarrow> bool" where
  \<comment> \<open>the tag maps of the points were allocated between the two states\<close>
  "fresh_tags rt rt' g =
     (\<forall>p\<in>set g. \<exists>a. Tags p = Some a \<and> length (heap rt) \<le> a \<and> a < length (heap rt'))"

text \<open>
  The batches as the specification words them: the points cut into contiguous runs of at
  most \<open>n\<close>, and all of them in one run when the configured size is not positive.
\<close>

fun chunks :: "nat \<Rightarrow> 'a list \<Rightarrow> 'a list list" where
  "chunks n xs = (if n = 0 \<or> xs = [] then [] else take n xs # chunks n (drop n xs))"

declare chunks.simps [simp del]

definition batching :: "('f, 'u, 'c) reporter \<Rightarrow> 'a list \<Rightarrow> 'a list list" where
  "batching r pts =
     chunks (if maxBatchSize r \<le> 0 then length pts else nat (maxBatchSize r)) pts"

text \<open>
  Writing a list of batches in sequence and stopping at the first error; the world after
  writing a list of batches whatever the errors; and the error of the \<open>j\<close>-th write
  once the batches before it are written.
\<close>

fun write_batches ::
  "('c option \<Rightarrow> 'w \<Rightarrow> tagmap list \<Rightarrow> 'f BatchPoints \<Rightarrow> 'e option \<times> 'w) \<Rightarrow> 'c option
     \<Rightarrow> tagmap list \<Rightarrow> string \<Rightarrow> 'f Point list list \<Rightarrow> 'w \<Rightarrow> 'f BatchPoints list
     \<Rightarrow> 'e option \<times> 'w \<times> 'f BatchPoints list" where
  "write_batches Write c h db [] w written = (None, w, written)"
| "write_batches Write c h db (b # bs) w written =
     (case Write c w h \<lparr>Points = b, Database = db\<rparr> of
        (Some err, w') \<Rightarrow> (Some err, w', written @ [\<lparr>Points = b, Database = db\<rparr>])
      | (None, w') \<Rightarrow>
          write_batches Write c h db bs w' (written @ [\<lparr>Points = b, Database = db\<rparr>]))"

definition world_after ::
  "('c option \<Rightarrow> 'w \<Rightarrow> tagmap list \<Rightarrow> 'f BatchPoints \<Rightarrow> 'e option \<times> 'w) \<Rightarrow> 'c option
     \<Rightarrow> tagmap list \<Rightarrow> string \<Rightarrow> 'f Point list list \<Rightarrow> 'w \<Rightarrow> 'w" where
  "world_after Write c h db bs w =
     fold (\<lambda>b w. snd (Write c w h \<lparr>Points = b, Database = db\<rparr>)) bs w"

definition outcome ::
  "('c option \<Rightarrow> 'w \<Rightarrow> tagmap list \<Rightarrow> 'f BatchPoints \<Rightarrow> 'e option \<times> 'w) \<Rightarrow> 'c option
     \<Rightarrow> tagmap list \<Rightarrow> string \<Rightarrow> 'f Point list list \<Rightarrow> 'w \<Rightarrow> nat \<Rightarrow> 'e option" where
  "outcome Write c h db bs w j =
     fst (Write c (world_after Write c h db (take j bs) w) h
            \<lparr>Points = bs ! j, Database = db\<rparr>)"

section \<open>Example inputs\<close>

text \<open>
  A reporter with a counter and a meter, base tags \<open>host = a\<close>, batches of two; a
  runtime whose first range loop starts at the third entry; the points and the runtime
  state a send then gives; a client whose writes succeed, and one whose second write
  fails; a histogram and a timer whose percentiles come in descending order.
\<close>

definition ex_reporter :: "(int, string, nat) reporter" where
  "ex_reporter =
     \<lparr>reg = [(''hits'', Counter \<lparr>c_Count = 5\<rparr>),
             (''rate'', Meter \<lparr>m_Count = 3, m_Rate1 = 11, m_Rate5 = 12, m_RateMean = 13\<rparr>)],
      interval = 10, align = True, url = ''http://localhost:8086'', database = ''db'',
      unsafeSsl = False, maxBatchSize = 2, measurement = ''m'', username = ''u'',
      password = ''p'', tags = Some 0, client = Some 0\<rparr>"

definition ex_runtime :: runtime where
  "ex_runtime = \<lparr>heap = [[(''host'', ''a'')]], orders = [[2, 0]]\<rparr>"

definition ex_points :: "int \<Rightarrow> int Point list" where
  "ex_points now =
     [\<lparr>Measurement = ''m'', Tags = Some 0, Fields = [(''hits.count'', Int64 5)], Time = now\<rparr>,
      \<lparr>Measurement = ''m'', Tags = Some 1, Fields = [(''rate.meter'', Float64 12)], Time = now\<rparr>,
      \<lparr>Measurement = ''m'', Tags = Some 2, Fields = [(''rate.meter'', Float64 3)], Time = now\<rparr>,
      \<lparr>Measurement = ''m'', Tags = Some 3, Fields = [(''rate.meter'', Float64 11)], Time = now\<rparr>,
      \<lparr>Measurement = ''m'', Tags = Some 4, Fields = [(''rate.meter'', Float64 13)], Time = now\<rparr>]"

definition ex_runtime_after :: runtime where
  "ex_runtime_after =
     \<lparr>heap = [[(''host'', ''a'')],
              [(''host'', ''a''), (''bucket'', ''m5'')],
              [(''host'', ''a''), (''bucket'', ''count'')],
              [(''host'', ''a''), (''bucket'', ''m1'')],
              [(''host'', ''a''), (''bucket'', ''mean'')]],
      orders = []\<rparr>"

definition ex_Write_ok ::
  "nat option \<Rightarrow> nat \<Rightarrow> tagmap list \<Rightarrow> int BatchPoints \<Rightarrow> string option \<times> nat" where
  "ex_Write_ok c w h bps = (None, Suc w)"

definition ex_Write_fail ::
  "nat option \<Rightarrow> nat \<Rightarrow> tagmap list \<Rightarrow> int BatchPoints \<Rightarrow> string option \<times> nat" where
  "ex_Write_fail c w h bps = (if w = 1 then Some ''timeout'' else None, Suc w)"

definition ex_histogram :: "int HistogramSnapshot" where
  "ex_histogram = \<lparr>h_Count = 3, h_Max = 9, h_Mean = 5, h_Min = 1, h_StdDev = 2,
     h_Variance = 4, h_Percentiles = (\<lambda>qs. [40, 30, 20, 10])\<rparr>"

definition ex_timer :: "int TimerSnapshot" where
  "ex_timer = \<lparr>t_Count = 3, t_Max = 9, t_Mean = 5, t_Min = 1, t_StdDev = 2,
     t_Variance = 4, t_Percentiles = (\<lambda>qs. [40, 30, 20, 10]),
     t_Rate1 = 11, t_Rate5 = 12, t_RateMean = 13\<rparr>"

section \<open>Iteration order and the heap\<close>

lemma range_order_mset: "mset (range_order ns xs) = mset xs"
proof (induction ns xs rule: range_order.induct)
  case (3 n ns x xs)
  let ?ys = "x # xs"
  let ?i = "n mod length ?ys"
  have i: "?i < length ?ys" by simp
  have "mset ?ys = mset (take ?i ?ys @ ?ys ! ?i # drop (Suc ?i) ?ys)"
    using id_take_nth_drop [OF i] by simp
  with 3 show ?case by (simp add: Let_def)
qed simp_all

text \<open>Every order of visit is the order of some choice of the runtime.\<close>

lemma range_order_complete: "mset ys = mset xs \<Longrightarrow> \<exists>ns. range_order ns xs = ys"
proof (induction ys arbitrary: xs)
  case Nil
  then show ?case by simp
next
  case (Cons y ys)
  then have "y \<in> set xs" by (metis list.set_intros(1) set_mset_mset)
  then obtain i where i: "i < length xs" "xs ! i = y" by (auto simp: in_set_conv_nth)
  then obtain x xs' where xs: "xs = x # xs'" by (cases xs) auto
  have "mset xs = mset (take i xs @ drop (Suc i) xs) + {#y#}"
    using id_take_nth_drop [OF i(1)] i(2)
    by (metis add_mset_add_single mset.simps(2) mset_append union_mset_add_mset_right)
  with Cons.prems have "mset ys = mset (take i xs @ drop (Suc i) xs)" by simp
  from Cons.IH [OF this] obtain ns where "range_order ns (take i xs @ drop (Suc i) xs) = ys" ..
  with i xs have "range_order (i # ns) xs = y # ys" by (simp add: Let_def)
  then show ?case ..
qed

lemma next_order_heap: "heap (snd (next_order rt)) = heap rt"
  by (simp add: next_order_def split: list.splits)

lemma next_order_eq: "snd (next_order rt) = rt\<lparr>orders := tl (orders rt)\<rparr>"
  by (simp add: next_order_def split: list.splits)

lemma fold_store:
  "a < length (heap rt) \<Longrightarrow>
   fold (\<lambda>(tk, tv). store a tk tv) xs rt =
     rt\<lparr>heap := (heap rt)[a := fold (\<lambda>(tk, tv). AList.update tk tv) xs (heap rt ! a)]\<rparr>"
proof (induction xs arbitrary: rt)
  case Nil
  then show ?case by simp
next
  case (Cons x xs)
  obtain k v where x: "x = (k, v)" by (cases x)
  have "a < length (heap (store a k v rt))" using Cons.prems by (simp add: store_def)
  from Cons.IH [OF this] show ?case using Cons.prems by (simp add: x store_def)
qed

lemma map_of_fold_update:
  "map_of (fold (\<lambda>(tk, tv). AList.update tk tv) ys al) = map_of al ++ map_of (rev ys)"
proof (induction ys arbitrary: al)
  case Nil
  then show ?case by simp
next
  case (Cons y ys)
  obtain k v where y: "y = (k, v)" by (cases y)
  show ?case
    by (rule ext) (simp add: y Cons.IH update_conv' map_add_def split: option.splits)
qed

lemma distinct_fold_update:
  "distinct (map fst al) \<Longrightarrow> distinct (map fst (fold (\<lambda>(tk, tv). AList.update tk tv) ys al))"
  by (induction ys arbitrary: al) (auto simp: distinct_update)

lemma map_of_perm:
  assumes "distinct (map fst xs)" and "mset ys = mset xs"
  shows "map_of ys = map_of xs"
proof -
  have "mset (map fst ys) = mset (map fst xs)" using assms(2) by simp
  then have "distinct (map fst ys)" using assms(1) by (metis mset_eq_imp_distinct_iff)
  moreover have "set ys = set xs" using assms(2) by (rule mset_eq_setD)
  ultimately show ?thesis using assms(1) by (simp add: map_of_inject_set)
qed

text \<open>
  What \<open>bucketTags\<close> does to the runtime state: one map more on the heap, holding
  the entries of the argument with \<open>bucket\<close> set, and one iteration order used.
\<close>

lemma bucketTags_eq:
  assumes "wf_tags rt t"
  shows "\<exists>M. bucketTags k t rt =
           (Some (length (heap rt)), rt\<lparr>heap := heap rt @ [M], orders := tl (orders rt)\<rparr>)
         \<and> map_of M = (map_of (entries rt t))(''bucket'' \<mapsto> k)
         \<and> distinct (map fst M)"
proof -
  let ?n = "length (heap rt)"
  let ?rt1 = "rt\<lparr>heap := heap rt @ [[]]\<rparr>"
  let ?ord = "fst (next_order ?rt1)"
  let ?rt2 = "snd (next_order ?rt1)"
  have e: "entries ?rt2 t = entries rt t"
    using assms
    by (auto simp: entries_def wf_tags_def next_order_heap nth_append split: option.splits)
  let ?ys = "range_order ?ord (entries rt t)"
  let ?C = "fold (\<lambda>(tk, tv). AList.update tk tv) ?ys []"
  let ?M = "AList.update ''bucket'' k ?C"
  have rt2: "?rt2 = rt\<lparr>heap := heap rt @ [[]], orders := tl (orders rt)\<rparr>"
    by (simp add: next_order_eq)
  have n: "?n < length (heap ?rt2)" by (simp add: next_order_heap)
  have "bucketTags k t rt =
          (Some ?n, store ?n ''bucket'' k (fold (\<lambda>(tk, tv). store ?n tk tv) ?ys ?rt2))"
    by (simp add: bucketTags_def Let_def case_prod_beta e)
  also have "fold (\<lambda>(tk, tv). store ?n tk tv) ?ys ?rt2 =
      ?rt2\<lparr>heap := (heap ?rt2)[?n := fold (\<lambda>(tk, tv). AList.update tk tv) ?ys (heap ?rt2 ! ?n)]\<rparr>"
    by (rule fold_store [OF n])
  also have "\<dots> = rt\<lparr>heap := heap rt @ [?C], orders := tl (orders rt)\<rparr>"
    by (simp add: rt2)
  also have "store ?n ''bucket'' k \<dots> = rt\<lparr>heap := heap rt @ [?M], orders := tl (orders rt)\<rparr>"
    by (simp add: store_def)
  finally have 1: "bucketTags k t rt =
      (Some ?n, rt\<lparr>heap := heap rt @ [?M], orders := tl (orders rt)\<rparr>)" .
  have d: "distinct (map fst (entries rt t))"
    using assms by (auto simp: entries_def wf_tags_def split: option.splits)
  have "map_of ?C = map_of (rev ?ys)" by (simp add: map_of_fold_update)
  also have "\<dots> = map_of (entries rt t)"
    by (rule map_of_perm [OF d]) (simp add: range_order_mset)
  finally have 2: "map_of ?M = (map_of (entries rt t))(''bucket'' \<mapsto> k)"
    by (simp add: update_conv')
  have 3: "distinct (map fst ?M)" by (simp add: distinct_update distinct_fold_update)
  from 1 2 3 show ?thesis by blast
qed

subsection \<open>The points of a range loop\<close>

lemma range_fields_eq:
  assumes "wf_tags rt (tags r)"
  shows "\<exists>H new. range_fields r now key kvs pts rt =
            (pts @ new, rt\<lparr>heap := heap rt @ H, orders := drop (length kvs) (orders rt)\<rparr>)
         \<and> list_all2 (\<lambda>kv M. map_of M = (map_of (entries rt (tags r)))(''bucket'' \<mapsto> fst kv))
              kvs H
         \<and> map Tags new = map Some [length (heap rt) ..< length (heap rt) + length kvs]
         \<and> map Fields new = map (\<lambda>kv. [(key, Float64 (snd kv))]) kvs
         \<and> (\<forall>p\<in>set new. Measurement p = measurement r \<and> Time p = now)"
  using assms
proof (induction kvs arbitrary: pts rt)
  case Nil
  then show ?case by simp
next
  case (Cons kv kvs)
  obtain k v where kv: "kv = (k, v)" by (cases kv)
  let ?n = "length (heap rt)"
  from bucketTags_eq [OF Cons.prems, of k] obtain M where
    bt: "bucketTags k (tags r) rt =
           (Some ?n, rt\<lparr>heap := heap rt @ [M], orders := tl (orders rt)\<rparr>)"
    and M: "map_of M = (map_of (entries rt (tags r)))(''bucket'' \<mapsto> k)"
    by blast
  let ?rt1 = "rt\<lparr>heap := heap rt @ [M], orders := tl (orders rt)\<rparr>"
  let ?p = "\<lparr>Measurement = measurement r, Tags = Some ?n, Fields = [(key, Float64 v)],
             Time = now\<rparr>"
  have wf1: "wf_tags ?rt1 (tags r)"
    using Cons.prems by (auto simp: wf_tags_def nth_append split: option.splits)
  have e1: "entries ?rt1 (tags r) = entries rt (tags r)"
    using Cons.prems by (auto simp: entries_def wf_tags_def nth_append split: option.splits)
  from Cons.IH [OF wf1, of "pts @ [?p]"] obtain H new where
    rf: "range_fields r now key kvs (pts @ [?p]) ?rt1 =
          ((pts @ [?p]) @ new,
           ?rt1\<lparr>heap := heap ?rt1 @ H, orders := drop (length kvs) (orders ?rt1)\<rparr>)"
    and H: "list_all2
             (\<lambda>kv M. map_of M = (map_of (entries ?rt1 (tags r)))(''bucket'' \<mapsto> fst kv)) kvs H"
    and T: "map Tags new = map Some [length (heap ?rt1) ..< length (heap ?rt1) + length kvs]"
    and F: "map Fields new = map (\<lambda>kv. [(key, Float64 (snd kv))]) kvs"
    and MT: "\<forall>p\<in>set new. Measurement p = measurement r \<and> Time p = now"
    by blast
  have 1: "range_fields r now key (kv # kvs) pts rt =
      (pts @ (?p # new),
       rt\<lparr>heap := heap rt @ (M # H), orders := drop (length (kv # kvs)) (orders rt)\<rparr>)"
    by (simp add: kv bt rf drop_Suc)
  have 2: "list_all2
      (\<lambda>kv M. map_of M = (map_of (entries rt (tags r)))(''bucket'' \<mapsto> fst kv))
      (kv # kvs) (M # H)"
    using H M by (simp add: kv e1)
  have 3: "map Tags (?p # new) = map Some [?n ..< ?n + length (kv # kvs)]"
  proof -
    have "[?n ..< ?n + length (kv # kvs)]
        = ?n # [length (heap ?rt1) ..< length (heap ?rt1) + length kvs]"
      by (subst upt_rec) simp
    then show ?thesis using T by (simp del: upt_Suc)
  qed
  have 4: "map Fields (?p # new) = map (\<lambda>kv. [(key, Float64 (snd kv))]) (kv # kvs)"
    using F by (simp add: kv)
  have 5: "\<forall>p\<in>set (?p # new). Measurement p = measurement r \<and> Time p = now"
    using MT by simp
  from 1 2 3 4 5 show ?case by blast
qed

lemma range_fields_points:
  assumes "wf_tags rt (tags r)"
  obtains new rt' where
    "range_fields r now key kvs pts rt = (pts @ new, rt')"
    "map (bucket_of rt') new = map (\<lambda>kv. Some (fst kv)) kvs"
    "map Fields new = map (\<lambda>kv. [(key, Float64 (snd kv))]) kvs"
    "map Tags new = map Some [length (heap rt) ..< length (heap rt) + length kvs]"
    "\<forall>p\<in>set new. Measurement p = measurement r \<and> Time p = now"
    "take (length (heap rt)) (heap rt') = heap rt"
    "length (heap rt') = length (heap rt) + length kvs"
proof -
  let ?n = "length (heap rt)"
  from range_fields_eq [OF assms, of now key kvs pts] obtain H new where
    rf: "range_fields r now key kvs pts rt =
          (pts @ new, rt\<lparr>heap := heap rt @ H, orders := drop (length kvs) (orders rt)\<rparr>)"
    and H: "list_all2
             (\<lambda>kv M. map_of M = (map_of (entries rt (tags r)))(''bucket'' \<mapsto> fst kv)) kvs H"
    and T: "map Tags new = map Some [?n ..< ?n + length kvs]"
    and F: "map Fields new = map (\<lambda>kv. [(key, Float64 (snd kv))]) kvs"
    and MT: "\<forall>p\<in>set new. Measurement p = measurement r \<and> Time p = now"
    by blast
  let ?rt' = "rt\<lparr>heap := heap rt @ H, orders := drop (length kvs) (orders rt)\<rparr>"
  have lH: "length H = length kvs" using H by (simp add: list_all2_lengthD)
  have lnew: "length new = length kvs"
    using T by (metis length_map length_upt add_diff_cancel_left')
  have B: "map (bucket_of ?rt') new = map (\<lambda>kv. Some (fst kv)) kvs"
  proof (rule nth_equalityI)
    show "length (map (bucket_of ?rt') new) = length (map (\<lambda>kv. Some (fst kv)) kvs)"
      by (simp add: lnew)
  next
    fix j assume "j < length (map (bucket_of ?rt') new)"
    then have j: "j < length kvs" by (simp add: lnew)
    have "Tags (new ! j) = map Tags new ! j" using j lnew by simp
    also have "\<dots> = Some (?n + j)" using j by (simp add: T)
    finally have tg: "Tags (new ! j) = Some (?n + j)" .
    have "map_of (H ! j) = (map_of (entries rt (tags r)))(''bucket'' \<mapsto> fst (kvs ! j))"
      using list_all2_nthD [OF H j] .
    then have "bucket_of ?rt' (new ! j) = Some (fst (kvs ! j))"
      by (simp add: bucket_of_def entries_def tg)
    then show "map (bucket_of ?rt') new ! j = map (\<lambda>kv. Some (fst kv)) kvs ! j"
      using j lnew by simp
  qed
  have P: "take ?n (heap ?rt') = heap rt" by simp
  have L: "length (heap ?rt') = ?n + length kvs" by (simp add: lH)
  show ?thesis by (rule that [OF rf B F T MT P L])
qed

lemma range_fields_next_order:
  assumes "wf_tags rt (tags r)"
  obtains kvs new rt' where
    "range_fields r now key (range_order (fst (next_order rt)) fs) pts (snd (next_order rt))
       = (pts @ new, rt')"
    "mset kvs = mset fs"
    "map (bucket_of rt') new = map (\<lambda>kv. Some (fst kv)) kvs"
    "map Fields new = map (\<lambda>kv. [(key, Float64 (snd kv))]) kvs"
    "map Tags new = map Some [length (heap rt) ..< length (heap rt) + length fs]"
    "\<forall>p\<in>set new. Measurement p = measurement r \<and> Time p = now"
    "take (length (heap rt)) (heap rt') = heap rt"
    "length (heap rt') = length (heap rt) + length fs"
proof -
  let ?rt1 = "snd (next_order rt)"
  let ?kvs = "range_order (fst (next_order rt)) fs"
  have h: "heap ?rt1 = heap rt" by (rule next_order_heap)
  have wf1: "wf_tags ?rt1 (tags r)"
    using assms by (simp add: wf_tags_def h split: option.splits)
  have m: "mset ?kvs = mset fs" by (rule range_order_mset)
  then have l: "length ?kvs = length fs" by (rule mset_eq_length)
  show ?thesis
  proof (rule range_fields_points [OF wf1, of now key ?kvs pts])
    fix new rt'
    assume 1: "range_fields r now key ?kvs pts ?rt1 = (pts @ new, rt')" and
      2: "map (bucket_of rt') new = map (\<lambda>kv. Some (fst kv)) ?kvs" and
      3: "map Fields new = map (\<lambda>kv. [(key, Float64 (snd kv))]) ?kvs" and
      4: "map Tags new = map Some [length (heap ?rt1) ..< length (heap ?rt1) + length ?kvs]" and
      5: "\<forall>p\<in>set new. Measurement p = measurement r \<and> Time p = now" and
      6: "take (length (heap ?rt1)) (heap rt') = heap ?rt1" and
      7: "length (heap rt') = length (heap ?rt1) + length ?kvs"
    show ?thesis
      by (rule that [OF 1 m 2 3 4 [unfolded h l] 5 6 [unfolded h] 7 [unfolded h l]])
  qed
qed

text \<open>The entry with a given key, in a permutation of a map literal.\<close>

lemma perm_filter_key:
  assumes "mset kvs = mset fs" and "filter (\<lambda>kv. fst kv = l) fs = [(l, v)]"
  shows "filter (\<lambda>kv. fst kv = l) kvs = [(l, v)]"
proof -
  have "mset (filter (\<lambda>kv. fst kv = l) kvs) = mset (filter (\<lambda>kv. fst kv = l) fs)"
    using assms(1) by simp
  then have "mset (filter (\<lambda>kv. fst kv = l) kvs) = {#(l, v)#}"
    unfolding assms(2) by simp
  then show ?thesis by (simp only: mset_single_iff)
qed

lemma labelled_point:
  assumes "map (bucket_of rt') new = map (\<lambda>kv. Some (fst kv)) kvs"
    and "map Fields new = map (\<lambda>kv. [(key, Float64 (snd kv))]) kvs"
    and "filter (\<lambda>kv. fst kv = l) kvs = [(l, v)]"
  shows "map Fields (filter (\<lambda>p. bucket_of rt' p = Some l) new) = [[(key, Float64 v)]]"
proof -
  have len: "length new = length kvs" using assms(1) by (metis length_map)
  have "map (\<lambda>p. (bucket_of rt' p, Fields p)) new
      = map (\<lambda>kv. (Some (fst kv), [(key, Float64 (snd kv))])) kvs"
  proof (rule nth_equalityI)
    show "length (map (\<lambda>p. (bucket_of rt' p, Fields p)) new)
        = length (map (\<lambda>kv. (Some (fst kv), [(key, Float64 (snd kv))])) kvs)"
      by (simp add: len)
  next
    fix j assume "j < length (map (\<lambda>p. (bucket_of rt' p, Fields p)) new)"
    then have j: "j < length kvs" "j < length new" by (simp_all add: len)
    have "bucket_of rt' (new ! j) = Some (fst (kvs ! j))"
      using arg_cong [OF assms(1), of "\<lambda>xs. xs ! j"] j by simp
    moreover have "Fields (new ! j) = [(key, Float64 (snd (kvs ! j)))]"
      using arg_cong [OF assms(2), of "\<lambda>xs. xs ! j"] j by simp
    ultimately show "map (\<lambda>p. (bucket_of rt' p, Fields p)) new ! j
        = map (\<lambda>kv. (Some (fst kv), [(key, Float64 (snd kv))])) kvs ! j"
      using j by simp
  qed
  then have "map snd (filter (\<lambda>x. fst x = Some l) (map (\<lambda>p. (bucket_of rt' p, Fields p)) new))
      = map snd (filter (\<lambda>x. fst x = Some l)
          (map (\<lambda>kv. (Some (fst kv), [(key, Float64 (snd kv))])) kvs))"
    by simp
  then have "map Fields (filter (\<lambda>p. bucket_of rt' p = Some l) new)
      = map (\<lambda>kv. [(key, Float64 (snd kv))]) (filter (\<lambda>kv. fst kv = l) kvs)"
    by (simp add: filter_map o_def)
  then show ?thesis by (simp add: assms(3))
qed

lemma pairs_of_new:
  assumes "map (bucket_of rt') new = map (\<lambda>kv. Some (fst kv)) kvs"
    and "map Fields new = map (\<lambda>kv. [(key, Float64 (snd kv))]) kvs"
  shows "map (\<lambda>p. (bucket_of rt' p, Fields p)) new
      = map (\<lambda>kv. (Some (fst kv), [(key, Float64 (snd kv))])) kvs"
proof -
  have len: "length new = length kvs" using assms(1) by (metis length_map)
  show ?thesis
  proof (rule nth_equalityI)
    show "length (map (\<lambda>p. (bucket_of rt' p, Fields p)) new)
        = length (map (\<lambda>kv. (Some (fst kv), [(key, Float64 (snd kv))])) kvs)"
      by (simp add: len)
  next
    fix j assume "j < length (map (\<lambda>p. (bucket_of rt' p, Fields p)) new)"
    then have j: "j < length kvs" "j < length new" by (simp_all add: len)
    have "bucket_of rt' (new ! j) = Some (fst (kvs ! j))"
      using arg_cong [OF assms(1), of "\<lambda>xs. xs ! j"] j by simp
    moreover have "Fields (new ! j) = [(key, Float64 (snd (kvs ! j)))]"
      using arg_cong [OF assms(2), of "\<lambda>xs. xs ! j"] j by simp
    ultimately show "map (\<lambda>p. (bucket_of rt' p, Fields p)) new ! j
        = map (\<lambda>kv. (Some (fst kv), [(key, Float64 (snd kv))])) kvs ! j"
      using j by simp
  qed
qed

lemma pairs_of_perm:
  assumes "map (bucket_of rt') new = map (\<lambda>kv. Some (fst kv)) kvs"
    and "map Fields new = map (\<lambda>kv. [(key, Float64 (snd kv))]) kvs"
    and "mset kvs = mset fs"
  shows "mset (map (\<lambda>p. (bucket_of rt' p, Fields p)) new)
      = mset (map (\<lambda>kv. (Some (fst kv), [(key, Float64 (snd kv))])) fs)"
proof -
  have "mset (map (\<lambda>kv. (Some (fst kv), [(key, Float64 (snd kv))])) kvs)
      = mset (map (\<lambda>kv. (Some (fst kv), [(key, Float64 (snd kv))])) fs)"
    using assms(3) by (metis mset_map)
  then show ?thesis by (simp only: pairs_of_new [OF assms(1) assms(2)])
qed

lemma buckets_of_perm:
  assumes "map (bucket_of rt') new = map (\<lambda>kv. Some (fst kv)) kvs"
    and "mset kvs = mset fs"
    and "distinct (map fst fs)"
  shows "mset (map (bucket_of rt') new) = mset (map Some (map fst fs))"
    and "distinct (map (bucket_of rt') new)"
proof -
  have "mset (map (\<lambda>kv. Some (fst kv)) kvs) = mset (map (\<lambda>kv. Some (fst kv)) fs)"
    using assms(2) by (metis mset_map)
  then show 1: "mset (map (bucket_of rt') new) = mset (map Some (map fst fs))"
    by (simp add: assms(1) o_def)
  have "distinct (map Some (map fst fs))"
    by (rule iffD2 [OF distinct_map]) (simp add: assms(3))
  then show "distinct (map (bucket_of rt') new)"
    using 1 by (metis mset_eq_imp_distinct_iff)
qed

subsection \<open>The type switch, case by case\<close>

lemma percentiles4_nth:
  "4 \<le> length ps \<Longrightarrow> percentiles4 ps = Inr (ps ! 0, ps ! 1, ps ! 2, ps ! 3)"
  by (auto simp: percentiles4_def numeral_eq_Suc split: list.splits)

lemma send_each_Histogram:
  assumes "4 \<le> length (h_Percentiles hs quantiles)"
  shows "send_each float64 r now name (Histogram hs) pts rt =
    Inr (range_fields r now (name @ ''.histogram'')
      (range_order (fst (next_order rt))
         (histogram_fields float64 hs (h_Percentiles hs quantiles ! 0)
            (h_Percentiles hs quantiles ! 1) (h_Percentiles hs quantiles ! 2)
            (h_Percentiles hs quantiles ! 3)))
      pts (snd (next_order rt)))"
  by (simp add: percentiles4_nth [OF assms] Let_def case_prod_beta)

lemma send_each_Timer:
  assumes "4 \<le> length (t_Percentiles ts quantiles)"
  shows "send_each float64 r now name (Timer ts) pts rt =
    Inr (range_fields r now (name @ ''.timer'')
      (range_order (fst (next_order rt))
         (timer_fields float64 ts (t_Percentiles ts quantiles ! 0)
            (t_Percentiles ts quantiles ! 1) (t_Percentiles ts quantiles ! 2)
            (t_Percentiles ts quantiles ! 3)))
      pts (snd (next_order rt)))"
  by (simp add: percentiles4_nth [OF assms] Let_def case_prod_beta)

lemma send_each_Meter:
  "send_each float64 r now name (Meter ms) pts rt =
    Inr (range_fields r now (name @ ''.meter'')
      (range_order (fst (next_order rt)) (meter_fields float64 ms))
      pts (snd (next_order rt)))"
  by (simp add: Let_def case_prod_beta)

subsection \<open>Timestamps\<close>

lemma range_fields_Time:
  "\<forall>p\<in>set pts. Time p = now \<Longrightarrow>
   \<forall>p\<in>set (fst (range_fields r now key kvs pts rt)). Time p = now"
proof (induction kvs arbitrary: pts rt)
  case Nil
  then show ?case by simp
next
  case (Cons kv kvs)
  obtain k v where kv: "kv = (k, v)" by (cases kv)
  obtain tg rt1 where bt: "bucketTags k (tags r) rt = (tg, rt1)" by (cases "bucketTags k (tags r) rt")
  let ?p = "\<lparr>Measurement = measurement r, Tags = tg, Fields = [(key, Float64 v)], Time = now\<rparr>"
  have "\<forall>p\<in>set (pts @ [?p]). Time p = now" using Cons.prems by simp
  from Cons.IH [OF this, of rt1] show ?case by (simp add: kv bt)
qed

lemma range_fields_Time':
  assumes "range_fields r now key kvs pts rt = (pts', rt')" and "\<forall>p\<in>set pts. Time p = now"
  shows "\<forall>p\<in>set pts'. Time p = now"
  using range_fields_Time [OF assms(2), of r key kvs rt] assms(1) by simp

lemma send_each_Time:
  assumes "send_each float64 r now name i pts rt = Inr (pts', rt')"
    and "\<forall>p\<in>set pts. Time p = now"
  shows "\<forall>p\<in>set pts'. Time p = now"
proof (cases i)
  case (Counter ms)
  then show ?thesis using assms by auto
next
  case (Gauge ms)
  then show ?thesis using assms by auto
next
  case (GaugeFloat64 ms)
  then show ?thesis using assms by auto
next
  case (Histogram hs)
  show ?thesis
  proof (cases "percentiles4 (h_Percentiles hs quantiles)")
    case (Inl p)
    then show ?thesis using assms(1) by (simp add: Histogram)
  next
    case (Inr q)
    obtain p0 p1 p2 p3 where q: "q = (p0, p1, p2, p3)" by (cases q) auto
    from assms(1) have "range_fields r now (name @ ''.histogram'')
        (range_order (fst (next_order rt)) (histogram_fields float64 hs p0 p1 p2 p3)) pts
        (snd (next_order rt)) = (pts', rt')"
      by (simp add: Histogram Inr q Let_def case_prod_beta)
    from range_fields_Time' [OF this assms(2)] show ?thesis .
  qed
next
  case (Meter ms)
  from assms(1) have "range_fields r now (name @ ''.meter'')
      (range_order (fst (next_order rt)) (meter_fields float64 ms)) pts
      (snd (next_order rt)) = (pts', rt')"
    by (simp add: Meter Let_def case_prod_beta)
  from range_fields_Time' [OF this assms(2)] show ?thesis .
next
  case (Timer ts)
  show ?thesis
  proof (cases "percentiles4 (t_Percentiles ts quantiles)")
    case (Inl p)
    then show ?thesis using assms(1) by (simp add: Timer)
  next
    case (Inr q)
    obtain p0 p1 p2 p3 where q: "q = (p0, p1, p2, p3)" by (cases q) auto
    from assms(1) have "range_fields r now (name @ ''.timer'')
        (range_order (fst (next_order rt)) (timer_fields float64 ts p0 p1 p2 p3)) pts
        (snd (next_order rt)) = (pts', rt')"
      by (simp add: Timer Inr q Let_def case_prod_beta)
    from range_fields_Time' [OF this assms(2)] show ?thesis .
  qed
next
  case Other
  then show ?thesis using assms by auto
qed

lemma Each_Time:
  "Each (send_each float64 r now) vs pts rt = Inr (pts', rt') \<Longrightarrow>
   \<forall>p\<in>set pts. Time p = now \<Longrightarrow> \<forall>p\<in>set pts'. Time p = now"
proof (induction vs arbitrary: pts rt)
  case Nil
  then show ?case by simp
next
  case (Cons e vs)
  obtain name i where e: "e = (name, i)" by (cases e)
  show ?case
  proof (cases "send_each float64 r now name i pts rt")
    case (Inl p)
    then show ?thesis using Cons.prems(1) by (simp add: e)
  next
    case (Inr x)
    obtain pts1 rt1 where x: "x = (pts1, rt1)" by (cases x)
    have 1: "send_each float64 r now name i pts rt = Inr (pts1, rt1)" by (simp add: Inr x)
    have 2: "Each (send_each float64 r now) vs pts1 rt1 = Inr (pts', rt')"
      using Cons.prems(1) by (simp add: e 1)
    from send_each_Time [OF 1 Cons.prems(2)] have "\<forall>p\<in>set pts1. Time p = now" .
    from Cons.IH [OF 2 this] show ?thesis .
  qed
qed

lemma Truncate_eq: "0 < d \<Longrightarrow> Truncate t d = d * (t div d)"
  by (simp add: Truncate_def minus_mod_eq_mult_div)

lemma send_points_Time:
  assumes "send_points float64 r clock rt = Inr (pts, rt')"
  shows "\<forall>p\<in>set pts. Time p = (if align r then Truncate clock (interval r) else clock)"
proof -
  define now where "now = (if align r then Truncate clock (interval r) else clock)"
  have "Each (send_each float64 r now) (reg r) [] rt = Inr (pts, rt')"
    using assms by (simp add: send_points_def Let_def now_def)
  from Each_Time [OF this] have "\<forall>p\<in>set pts. Time p = now" by simp
  then show ?thesis by (simp only: now_def)
qed

subsection \<open>Tag maps\<close>

lemma prefix_length:
  assumes "take (length h) h1 = h"
  shows "length h \<le> length h1"
  using arg_cong [OF assms, of length] by simp

lemma prefix_trans:
  assumes "take (length h) h1 = h" and "take (length h1) h2 = h1"
  shows "take (length h) h2 = h"
proof -
  have "length h \<le> length h1" using assms(1) by (rule prefix_length)
  then have "take (length h) h2 = take (length h) (take (length h1) h2)" by (simp add: min_def)
  then show ?thesis by (simp only: assms)
qed

lemma wf_tags_prefix:
  assumes "wf_tags rt t" and "take (length (heap rt)) (heap rt1) = heap rt"
  shows "wf_tags rt1 t" and "entries rt1 t = entries rt t"
proof -
  have l: "length (heap rt) \<le> length (heap rt1)" using assms(2) by (rule prefix_length)
  have n: "heap rt1 ! a = heap rt ! a" if "a < length (heap rt)" for a
    using that assms(2) by (metis nth_take)
  show "wf_tags rt1 t" using assms(1) l n by (auto simp: wf_tags_def split: option.splits)
  show "entries rt1 t = entries rt t"
    using assms(1) n by (auto simp: wf_tags_def entries_def split: option.splits)
qed

lemma fresh_tags_mono:
  "fresh_tags rt1 rt2 g \<Longrightarrow> length (heap rt) \<le> length (heap rt1) \<Longrightarrow>
   length (heap rt2) \<le> length (heap rt') \<Longrightarrow> fresh_tags rt rt' g"
  unfolding fresh_tags_def by (meson le_trans less_le_trans)

lemma bucketed_tags:
  assumes "wf_tags rt (tags r)"
    and "range_fields r now key (range_order (fst (next_order rt)) fs) pts (snd (next_order rt))
          = (pts', rt')"
  shows "\<exists>g. pts' = pts @ g \<and> take (length (heap rt)) (heap rt') = heap rt
           \<and> fresh_tags rt rt' g"
proof (rule range_fields_next_order [OF assms(1), of now key fs pts])
  fix kvs new rt''
  assume 1: "range_fields r now key (range_order (fst (next_order rt)) fs) pts
        (snd (next_order rt)) = (pts @ new, rt'')" and
    5: "map Tags new = map Some [length (heap rt) ..< length (heap rt) + length fs]" and
    7: "take (length (heap rt)) (heap rt'') = heap rt" and
    8: "length (heap rt'') = length (heap rt) + length fs"
  from 1 assms(2) have eq: "pts' = pts @ new" "rt' = rt''" by simp_all
  have "fresh_tags rt rt'' new"
    unfolding fresh_tags_def
  proof
    fix p assume "p \<in> set new"
    then have "Tags p \<in> set (map Tags new)" by simp
    then have "Tags p \<in> Some ` {length (heap rt) ..< length (heap rt) + length fs}"
      by (simp only: 5 set_map set_upt)
    then show "\<exists>a. Tags p = Some a \<and> length (heap rt) \<le> a \<and> a < length (heap rt'')"
      by (auto simp: 8)
  qed
  with 7 eq show ?thesis by simp
qed

lemma send_each_tags:
  assumes wf: "wf_tags rt (tags r)"
    and se: "send_each float64 r now name i pts rt = Inr (pts', rt')"
  shows "\<exists>g. pts' = pts @ g \<and> take (length (heap rt)) (heap rt') = heap rt
           \<and> (if bucketed i then fresh_tags rt rt' g else (\<forall>p\<in>set g. Tags p = tags r))"
proof (cases i)
  case (Counter ms)
  then show ?thesis using se by auto
next
  case (Gauge ms)
  then show ?thesis using se by auto
next
  case (GaugeFloat64 ms)
  then show ?thesis using se by auto
next
  case (Histogram hs)
  show ?thesis
  proof (cases "percentiles4 (h_Percentiles hs quantiles)")
    case (Inl p)
    then show ?thesis using se by (simp add: Histogram)
  next
    case (Inr q)
    obtain p0 p1 p2 p3 where q: "q = (p0, p1, p2, p3)" by (cases q) auto
    from se have "range_fields r now (name @ ''.histogram'')
        (range_order (fst (next_order rt)) (histogram_fields float64 hs p0 p1 p2 p3)) pts
        (snd (next_order rt)) = (pts', rt')"
      by (simp add: Histogram Inr q Let_def case_prod_beta)
    from bucketed_tags [OF wf this] show ?thesis by (simp add: Histogram)
  qed
next
  case (Meter ms)
  from se have "range_fields r now (name @ ''.meter'')
      (range_order (fst (next_order rt)) (meter_fields float64 ms)) pts
      (snd (next_order rt)) = (pts', rt')"
    by (simp add: Meter Let_def case_prod_beta)
  from bucketed_tags [OF wf this] show ?thesis by (simp add: Meter)
next
  case (Timer ts)
  show ?thesis
  proof (cases "percentiles4 (t_Percentiles ts quantiles)")
    case (Inl p)
    then show ?thesis using se by (simp add: Timer)
  next
    case (Inr q)
    obtain p0 p1 p2 p3 where q: "q = (p0, p1, p2, p3)" by (cases q) auto
    from se have "range_fields r now (name @ ''.timer'')
        (range_order (fst (next_order rt)) (timer_fields float64 ts p0 p1 p2 p3)) pts
        (snd (next_order rt)) = (pts', rt')"
      by (simp add: Timer Inr q Let_def case_prod_beta)
    from bucketed_tags [OF wf this] show ?thesis by (simp add: Timer)
  qed
next
  case Other
  then show ?thesis using se by auto
qed

lemma Each_tags:
  "wf_tags rt (tags r) \<Longrightarrow> Each (send_each float64 r now) vs pts rt = Inr (pts', rt') \<Longrightarrow>
   \<exists>groups. pts' = pts @ concat groups \<and> take (length (heap rt)) (heap rt') = heap rt
     \<and> list_all2 (\<lambda>e g. if bucketed (snd e) then fresh_tags rt rt' g
                         else (\<forall>p\<in>set g. Tags p = tags r)) vs groups"
proof (induction vs arbitrary: pts rt)
  case Nil
  then show ?case by simp
next
  case (Cons e vs)
  obtain name i where e: "e = (name, i)" by (cases e)
  show ?case
  proof (cases "send_each float64 r now name i pts rt")
    case (Inl p)
    then show ?thesis using Cons.prems(2) by (simp add: e)
  next
    case (Inr x)
    obtain pts1 rt1 where x: "x = (pts1, rt1)" by (cases x)
    have 1: "send_each float64 r now name i pts rt = Inr (pts1, rt1)" by (simp add: Inr x)
    have 2: "Each (send_each float64 r now) vs pts1 rt1 = Inr (pts', rt')"
      using Cons.prems(2) by (simp add: e 1)
    from send_each_tags [OF Cons.prems(1) 1] obtain g where
      g: "pts1 = pts @ g" and p1: "take (length (heap rt)) (heap rt1) = heap rt" and
      k: "if bucketed i then fresh_tags rt rt1 g else (\<forall>p\<in>set g. Tags p = tags r)"
      by blast
    have wf1: "wf_tags rt1 (tags r)" by (rule wf_tags_prefix(1) [OF Cons.prems(1) p1])
    from Cons.IH [OF wf1 2] obtain groups where
      gs: "pts' = pts1 @ concat groups" and p2: "take (length (heap rt1)) (heap rt') = heap rt1"
      and ks: "list_all2 (\<lambda>e g. if bucketed (snd e) then fresh_tags rt1 rt' g
                         else (\<forall>p\<in>set g. Tags p = tags r)) vs groups"
      by blast
    have l1: "length (heap rt) \<le> length (heap rt1)" using p1 by (rule prefix_length)
    have l2: "length (heap rt1) \<le> length (heap rt')" using p2 by (rule prefix_length)
    have a: "pts' = pts @ concat (g # groups)" by (simp add: gs g)
    have b: "take (length (heap rt)) (heap rt') = heap rt" by (rule prefix_trans [OF p1 p2])
    have c: "if bucketed (snd e) then fresh_tags rt rt' g else (\<forall>p\<in>set g. Tags p = tags r)"
      using k fresh_tags_mono [OF _ order_refl l2, of rt g] by (simp add: e split: if_splits)
    have d: "list_all2 (\<lambda>e g. if bucketed (snd e) then fresh_tags rt rt' g
                         else (\<forall>p\<in>set g. Tags p = tags r)) vs groups"
      using ks
    proof (rule list_all2_mono)
      fix e' g'
      assume "if bucketed (snd e') then fresh_tags rt1 rt' g' else (\<forall>p\<in>set g'. Tags p = tags r)"
      then show "if bucketed (snd e') then fresh_tags rt rt' g' else (\<forall>p\<in>set g'. Tags p = tags r)"
        using fresh_tags_mono [OF _ l1 order_refl, of rt' g'] by (simp split: if_splits)
    qed
    from a b c d have "pts' = pts @ concat (g # groups)
      \<and> take (length (heap rt)) (heap rt') = heap rt
      \<and> list_all2 (\<lambda>e g. if bucketed (snd e) then fresh_tags rt rt' g
                         else (\<forall>p\<in>set g. Tags p = tags r)) (e # vs) (g # groups)"
      by simp
    then show ?thesis by blast
  qed
qed

lemma store_other:
  assumes "wf_tags rt t" and "length (heap rt) \<le> a"
  shows "Some a \<noteq> t" and "entries (store a k v rt') t = entries rt' t"
  using assms by (auto simp: wf_tags_def entries_def store_def split: option.splits)

subsection \<open>Batches\<close>

lemma chunks_Nil [simp]: "chunks n [] = []"
  by (simp add: chunks.simps)

lemma chunks_step:
  "0 < n \<Longrightarrow> xs \<noteq> [] \<Longrightarrow> chunks n xs = take n xs # chunks n (drop n xs)"
  by (subst chunks.simps) simp

lemma concat_chunks: "0 < n \<Longrightarrow> concat (chunks n xs) = xs"
proof (induction n xs rule: chunks.induct)
  case (1 n xs)
  show ?case
  proof (cases "xs = []")
    case True
    then show ?thesis by simp
  next
    case False
    with 1 show ?thesis by (simp add: chunks_step)
  qed
qed

lemma chunks_sizes: "0 < n \<Longrightarrow> b \<in> set (chunks n xs) \<Longrightarrow> b \<noteq> [] \<and> length b \<le> n"
proof (induction n xs rule: chunks.induct)
  case (1 n xs)
  show ?case
  proof (cases "xs = []")
    case True
    with "1.prems" show ?thesis by simp
  next
    case False
    with 1 show ?thesis by (auto simp: chunks_step)
  qed
qed

lemma chunks_full:
  "0 < n \<Longrightarrow> Suc j < length (chunks n xs) \<Longrightarrow> length (chunks n xs ! j) = n"
proof (induction n xs arbitrary: j rule: chunks.induct)
  case (1 n xs)
  show ?case
  proof (cases "xs = []")
    case True
    with "1.prems" show ?thesis by simp
  next
    case False
    then have c: "chunks n xs = take n xs # chunks n (drop n xs)"
      using "1.prems"(1) by (simp add: chunks_step)
    show ?thesis
    proof (cases j)
      case 0
      with "1.prems"(2) c have "chunks n (drop n xs) \<noteq> []" by auto
      then have "drop n xs \<noteq> []" by auto
      then show ?thesis by (simp add: 0 c)
    next
      case (Suc j')
      with "1.prems"(2) c have "Suc j' < length (chunks n (drop n xs))" by simp
      with "1.IH" [of j'] "1.prems"(1) False show ?thesis by (simp add: Suc c)
    qed
  qed
qed

lemma length_chunks: "0 < n \<Longrightarrow> length (chunks n xs) = (length xs + n - 1) div n"
proof (induction n xs rule: chunks.induct)
  case (1 n xs)
  note pos = "1.prems"
  show ?case
  proof (cases "xs = []")
    case True
    with pos show ?thesis by simp
  next
    case ne: False
    then have c: "chunks n xs = take n xs # chunks n (drop n xs)"
      using pos by (simp add: chunks_step)
    have IH: "length (chunks n (drop n xs)) = (length xs - n + n - 1) div n"
      using "1.IH" pos ne by simp
    have lpos: "0 < length xs" using ne by simp
    show ?thesis
    proof (cases "length xs \<le> n")
      case le: True
      then have d: "drop n xs = []" by simp
      define m where "m = length xs"
      have m: "0 < m" "m \<le> n" using lpos le by (simp_all add: m_def)
      then have "m + n - 1 = n + (m - 1)" by simp
      moreover have "(n + (m - 1)) div n = Suc ((m - 1) div n)" using pos by simp
      moreover have "(m - 1) div n = 0" using m by simp
      ultimately have "(m + n - 1) div n = 1" by simp
      then have "(length xs + n - 1) div n = 1" by (simp only: m_def)
      then show ?thesis by (simp add: c d)
    next
      case gt: False
      define k where "k = length xs - n + n - 1"
      have "length xs + n - 1 = k + n" using gt by (simp add: k_def)
      moreover have "(k + n) div n = Suc (k div n)" using pos by simp
      ultimately have "(length xs + n - 1) div n = Suc (k div n)" by (simp only:)
      moreover have "length (chunks n (drop n xs)) = k div n" using IH by (simp only: k_def)
      ultimately show ?thesis by (simp add: c)
    qed
  qed
qed

lemma slice_take:
  assumes "0 \<le> i" "i < int (length pts)" "0 < m"
  shows "slice pts i (if int (length pts) < i + m then int (length pts) else i + m)
       = Inr (take (nat m) (drop (nat i) pts))"
proof (cases "int (length pts) < i + m")
  case True
  then have "length (drop (nat i) pts) \<le> nat m" using assms by simp
  then have "take (nat m) (drop (nat i) pts) = drop (nat i) pts" by simp
  moreover have "take (nat (int (length pts) - i)) (drop (nat i) pts) = drop (nat i) pts"
    using assms by simp
  ultimately show ?thesis using True assms by (simp add: slice_def)
next
  case False
  then show ?thesis using assms by (simp add: slice_def)
qed

lemma send_loop_done:
  "\<not> i < int (length pts) \<Longrightarrow>
   send_loop Write r rt pts m i w written = Some (Inr (None, w, written, rt))"
  by (subst send_loop.simps) simp

lemma send_loop_step:
  assumes "0 \<le> i" "i < int (length pts)" "0 < m"
  shows "send_loop Write r rt pts m i w written =
    (case Write (client r) w (heap rt)
            \<lparr>Points = take (nat m) (drop (nat i) pts), Database = database r\<rparr> of
       (Some err, w') \<Rightarrow>
         Some (Inr (Some err, w',
           written @ [\<lparr>Points = take (nat m) (drop (nat i) pts), Database = database r\<rparr>], rt))
     | (None, w') \<Rightarrow>
         send_loop Write r rt pts m (i + m) w'
           (written @ [\<lparr>Points = take (nat m) (drop (nat i) pts), Database = database r\<rparr>]))"
  by (subst send_loop.simps) (simp add: Let_def slice_take [OF assms] assms(2))

lemma send_loop_write_batches:
  assumes "0 < m" "0 \<le> i"
  shows "send_loop Write r rt pts m i w written =
    Some (Inr (case write_batches Write (client r) (heap rt) (database r)
                      (chunks (nat m) (drop (nat i) pts)) w written of
                 (e, w', tr) \<Rightarrow> (e, w', tr, rt)))"
  using assms(2)
proof (induction "length pts - nat i" arbitrary: i w written rule: less_induct)
  case less
  show ?case
  proof (cases "i < int (length pts)")
    case False
    then have "drop (nat i) pts = []" using less.prems by simp
    with False show ?thesis by (simp add: send_loop_done)
  next
    case True
    let ?b = "take (nat m) (drop (nat i) pts)"
    let ?bps = "\<lparr>Points = ?b, Database = database r\<rparr>"
    have ne: "drop (nat i) pts \<noteq> []" using True less.prems by simp
    have d: "drop (nat m) (drop (nat i) pts) = drop (nat (i + m)) pts"
      using less.prems assms(1) by (simp add: nat_add_distrib add.commute)
    have "chunks (nat m) (drop (nat i) pts)
        = ?b # chunks (nat m) (drop (nat m) (drop (nat i) pts))"
      using assms(1) by (intro chunks_step ne) simp
    then have c: "chunks (nat m) (drop (nat i) pts)
        = ?b # chunks (nat m) (drop (nat (i + m)) pts)"
      by (simp only: d)
    have lt: "length pts - nat (i + m) < length pts - nat i"
      using True less.prems assms(1) by linarith
    have nn: "0 \<le> i + m" using less.prems assms(1) by simp
    note IH = less.hyps [OF lt nn]
    obtain e w' where W: "Write (client r) w (heap rt) ?bps = (e, w')"
      by (cases "Write (client r) w (heap rt) ?bps")
    show ?thesis
    proof (cases e)
      case None
      then show ?thesis
        by (simp add: send_loop_step [OF less.prems True assms(1)] W c IH)
    next
      case (Some err)
      then show ?thesis
        by (simp add: send_loop_step [OF less.prems True assms(1)] W c)
    qed
  qed
qed

lemma world_after_Cons:
  "world_after Write c h db (b # bs) w =
     world_after Write c h db bs (snd (Write c w h \<lparr>Points = b, Database = db\<rparr>))"
  by (simp add: world_after_def)

lemma outcome_0:
  "outcome Write c h db (b # bs) w 0 = fst (Write c w h \<lparr>Points = b, Database = db\<rparr>)"
  by (simp add: outcome_def world_after_def)

lemma outcome_Suc:
  "outcome Write c h db (b # bs) w (Suc j) =
     outcome Write c h db bs (snd (Write c w h \<lparr>Points = b, Database = db\<rparr>)) j"
  by (simp add: outcome_def world_after_def)

lemma write_batches_all_ok:
  "\<forall>j<length bs. outcome Write c h db bs w j = None \<Longrightarrow>
   write_batches Write c h db bs w written =
     (None, world_after Write c h db bs w,
      written @ map (\<lambda>b. \<lparr>Points = b, Database = db\<rparr>) bs)"
proof (induction bs arbitrary: w written)
  case Nil
  then show ?case by (simp add: world_after_def)
next
  case (Cons b bs)
  obtain e w' where W: "Write c w h \<lparr>Points = b, Database = db\<rparr> = (e, w')"
    by (cases "Write c w h \<lparr>Points = b, Database = db\<rparr>")
  from Cons.prems have "outcome Write c h db (b # bs) w 0 = None" by blast
  then have e: "e = None" by (simp add: outcome_0 W)
  have "\<forall>j<length bs. outcome Write c h db bs w' j = None"
  proof (intro allI impI)
    fix j assume "j < length bs"
    then have "outcome Write c h db (b # bs) w (Suc j) = None" using Cons.prems by simp
    then show "outcome Write c h db bs w' j = None" by (simp add: outcome_Suc W)
  qed
  from Cons.IH [OF this] show ?case by (simp add: W e world_after_Cons)
qed

lemma write_batches_first_fail:
  "k < length bs \<Longrightarrow> \<forall>j<k. outcome Write c h db bs w j = None \<Longrightarrow>
   outcome Write c h db bs w k = Some err \<Longrightarrow>
   write_batches Write c h db bs w written =
     (Some err, world_after Write c h db (take (Suc k) bs) w,
      written @ map (\<lambda>b. \<lparr>Points = b, Database = db\<rparr>) (take (Suc k) bs))"
proof (induction bs arbitrary: k w written)
  case Nil
  then show ?case by simp
next
  case (Cons b bs)
  obtain e w' where W: "Write c w h \<lparr>Points = b, Database = db\<rparr> = (e, w')"
    by (cases "Write c w h \<lparr>Points = b, Database = db\<rparr>")
  show ?case
  proof (cases k)
    case 0
    with Cons.prems(3) have "e = Some err" by (simp add: outcome_0 W)
    then show ?thesis by (simp add: 0 W world_after_def)
  next
    case (Suc k')
    then have "outcome Write c h db (b # bs) w 0 = None" using Cons.prems(2) by simp
    then have e: "e = None" by (simp add: outcome_0 W)
    have 1: "k' < length bs" using Cons.prems(1) Suc by simp
    have 2: "\<forall>j<k'. outcome Write c h db bs w' j = None"
    proof (intro allI impI)
      fix j assume "j < k'"
      then have "outcome Write c h db (b # bs) w (Suc j) = None"
        using Cons.prems(2) Suc by simp
      then show "outcome Write c h db bs w' j = None" by (simp add: outcome_Suc W)
    qed
    have 3: "outcome Write c h db bs w' k' = Some err"
      using Cons.prems(3) by (simp add: Suc outcome_Suc W)
    from Cons.IH [OF 1 2 3] show ?thesis by (simp add: Suc W e world_after_Cons)
  qed
qed

lemma write_batches_None_iff:
  "fst (write_batches Write c h db bs w written) = None
     \<longleftrightarrow> (\<forall>j<length bs. outcome Write c h db bs w j = None)"
proof (induction bs arbitrary: w written)
  case Nil
  then show ?case by simp
next
  case (Cons b bs)
  obtain e w' where W: "Write c w h \<lparr>Points = b, Database = db\<rparr> = (e, w')"
    by (cases "Write c w h \<lparr>Points = b, Database = db\<rparr>")
  show ?case
  proof (cases e)
    case None
    have "(\<forall>j<length (b # bs). outcome Write c h db (b # bs) w j = None)
        \<longleftrightarrow> (\<forall>j<length bs. outcome Write c h db bs w' j = None)"
      by (simp add: All_less_Suc2 outcome_0 outcome_Suc W None)
    then show ?thesis using Cons.IH [of w'] by (simp add: W None)
  next
    case (Some err)
    then have "outcome Write c h db (b # bs) w 0 \<noteq> None" by (simp add: outcome_0 W)
    then have "\<not> (\<forall>j<length (b # bs). outcome Write c h db (b # bs) w j = None)"
      by auto
    then show ?thesis by (simp add: W Some)
  qed
qed

lemma write_batches_prefix:
  "\<exists>k\<le>length bs. snd (snd (write_batches Write c h db bs w written))
       = written @ map (\<lambda>b. \<lparr>Points = b, Database = db\<rparr>) (take k bs)"
proof (induction bs arbitrary: w written)
  case Nil
  then show ?case by simp
next
  case (Cons b bs)
  obtain e w' where W: "Write c w h \<lparr>Points = b, Database = db\<rparr> = (e, w')"
    by (cases "Write c w h \<lparr>Points = b, Database = db\<rparr>")
  show ?case
  proof (cases e)
    case None
    from Cons.IH [of w' "written @ [\<lparr>Points = b, Database = db\<rparr>]"]
    obtain k where "k \<le> length bs"
      "snd (snd (write_batches Write c h db bs w' (written @ [\<lparr>Points = b, Database = db\<rparr>])))
        = (written @ [\<lparr>Points = b, Database = db\<rparr>])
          @ map (\<lambda>b. \<lparr>Points = b, Database = db\<rparr>) (take k bs)"
      by blast
    then have "Suc k \<le> length (b # bs)
      \<and> snd (snd (write_batches Write c h db (b # bs) w written))
        = written @ map (\<lambda>b. \<lparr>Points = b, Database = db\<rparr>) (take (Suc k) (b # bs))"
      by (simp add: W None)
    then show ?thesis by blast
  next
    case (Some err)
    have "Suc 0 \<le> length (b # bs)
      \<and> snd (snd (write_batches Write c h db (b # bs) w written))
        = written @ map (\<lambda>b. \<lparr>Points = b, Database = db\<rparr>) (take (Suc 0) (b # bs))"
      by (simp add: W Some)
    then show ?thesis by blast
  qed
qed

lemma send_batches_write_batches:
  "send_batches Write r pts rt w =
     Some (Inr (case write_batches Write (client r) (heap rt) (database r)
                       (batching r pts) w [] of
                  (e, w', tr) \<Rightarrow> (e, w', tr, rt)))"
proof (cases "pts = []")
  case True
  then show ?thesis by (simp add: send_batches_def batching_def send_loop_done)
next
  case False
  define m where "m = (if maxBatchSize r \<le> 0 then int (length pts) else maxBatchSize r)"
  have m: "0 < m" using False by (simp add: m_def)
  have n: "nat m = (if maxBatchSize r \<le> 0 then length pts else nat (maxBatchSize r))"
    by (simp add: m_def)
  have "send_batches Write r pts rt w = send_loop Write r rt pts m 0 w []"
    by (simp add: send_batches_def m_def Let_def)
  also have "\<dots> = Some (Inr (case write_batches Write (client r) (heap rt) (database r)
                      (chunks (nat m) (drop (nat 0) pts)) w [] of
                 (e, w', tr) \<Rightarrow> (e, w', tr, rt)))"
    by (rule send_loop_write_batches [OF m]) simp
  finally show ?thesis by (simp add: batching_def n)
qed

lemma send_write_batches:
  assumes "send_points float64 r clock rt = Inr (pts, rt')"
  shows "send float64 Write r clock rt w =
     Some (Inr (case write_batches Write (client r) (heap rt') (database r)
                       (batching r pts) w [] of
                  (e, w', tr) \<Rightarrow> (e, w', tr, rt')))"
  by (simp add: send_def assms send_batches_write_batches)

text \<open>The send operation always returns.\<close>

lemma send_returns: "\<exists>res. send float64 Write r clock rt w = Some res"
proof (cases "send_points float64 r clock rt")
  case (Inl p)
  then show ?thesis by (simp add: send_def)
next
  case (Inr x)
  obtain pts rt' where "x = (pts, rt')" by (cases x)
  with Inr show ?thesis by (simp add: send_write_batches)
qed

section \<open>Running the examples\<close>

lemma ex_wf: "wf_tags ex_runtime (tags ex_reporter)"
  by (simp add: wf_tags_def ex_runtime_def ex_reporter_def)

lemma ex_send_points_any:
  "send_points sint (ex_reporter\<lparr>align := al, maxBatchSize := B\<rparr>) t ex_runtime
     = Inr (ex_points (if al then Truncate t 10 else t), ex_runtime_after)"
  by (simp add: send_points_def ex_reporter_def ex_runtime_def ex_points_def
      ex_runtime_after_def meter_fields_def Let_def next_order_def bucketTags_def entries_def
      store_def)

lemma ex_send_points_aligned:
  "send_points sint ex_reporter 27 ex_runtime = Inr (ex_points 20, ex_runtime_after)"
  using ex_send_points_any [where al = True and B = 2 and t = 27] by (simp add: ex_reporter_def Truncate_def)

lemma ex_send_points_21:
  "send_points sint ex_reporter 21 ex_runtime = Inr (ex_points 20, ex_runtime_after)"
  using ex_send_points_any [where al = True and B = 2 and t = 21] by (simp add: ex_reporter_def Truncate_def)

lemma ex_send_points_unaligned:
  "send_points sint (ex_reporter\<lparr>align := False\<rparr>) 27 ex_runtime
     = Inr (ex_points 27, ex_runtime_after)"
  using ex_send_points_any [where al = False and B = 2 and t = 27] by (simp add: ex_reporter_def)

lemma ex_send_points_unbounded:
  "send_points sint (ex_reporter\<lparr>maxBatchSize := 0\<rparr>) 27 ex_runtime
     = Inr (ex_points 20, ex_runtime_after)"
  using ex_send_points_any [where al = True and B = 0 and t = 27] by (simp add: ex_reporter_def Truncate_def)

lemma ex_send_points_empty:
  "send_points sint (ex_reporter\<lparr>reg := [], maxBatchSize := 0\<rparr>) 27 ex_runtime
     = Inr ([], ex_runtime)"
  by (simp add: send_points_def)

lemma ex_batching:
  "batching ex_reporter (ex_points 20)
     = [take 2 (ex_points 20), take 2 (drop 2 (ex_points 20)), drop 4 (ex_points 20)]"
  by (simp add: batching_def ex_reporter_def ex_points_def chunks.simps)

lemma ex_send_ok:
  "send sint ex_Write_ok ex_reporter 27 ex_runtime 0
     = Some (Inr (None, 3,
         [\<lparr>Points = take 2 (ex_points 20), Database = ''db''\<rparr>,
          \<lparr>Points = take 2 (drop 2 (ex_points 20)), Database = ''db''\<rparr>,
          \<lparr>Points = drop 4 (ex_points 20), Database = ''db''\<rparr>], ex_runtime_after))"
proof -
  have "send_batches ex_Write_ok ex_reporter (ex_points 20) ex_runtime_after 0
     = Some (Inr (None, 3,
         [\<lparr>Points = take 2 (ex_points 20), Database = ''db''\<rparr>,
          \<lparr>Points = take 2 (drop 2 (ex_points 20)), Database = ''db''\<rparr>,
          \<lparr>Points = drop 4 (ex_points 20), Database = ''db''\<rparr>], ex_runtime_after))"
    by (simp add: send_batches_def send_loop_step send_loop_done ex_reporter_def ex_points_def
        ex_Write_ok_def)
  then show ?thesis by (simp add: send_def ex_send_points_aligned)
qed

section \<open>bucketTags\<close>

text \<open>
  Claim C10. For a base tag map \<open>t\<close> (nil, or an allocated map) and a field key \<open>k\<close>,
  the map that \<open>bucketTags k t\<close> returns maps \<open>bucket\<close> to \<open>k\<close> and every other
  key as \<open>t\<close> does, so that a \<open>bucket\<close> entry of \<open>t\<close> is overwritten in it; it is a
  newly allocated map, not \<open>t\<close>; and \<open>t\<close>, like every map allocated before, is as it
  was.
\<close>

theorem bucketTags_fresh_copy:
  assumes "wf_tags rt t" and "bucketTags k t rt = (m, rt')"
  shows "map_of (entries rt' m) = (map_of (entries rt t))(''bucket'' \<mapsto> k)
       \<and> m = Some (length (heap rt)) \<and> m \<noteq> t
       \<and> length (heap rt') = Suc (length (heap rt))
       \<and> take (length (heap rt)) (heap rt') = heap rt
       \<and> entries rt' t = entries rt t"
proof -
  from bucketTags_eq [OF assms(1), of k] assms(2) obtain M where
    m: "m = Some (length (heap rt))" and
    rt': "rt' = rt\<lparr>heap := heap rt @ [M], orders := tl (orders rt)\<rparr>" and
    M: "map_of M = (map_of (entries rt t))(''bucket'' \<mapsto> k)"
    by auto
  have "m \<noteq> t" using assms(1) by (auto simp: m wf_tags_def)
  moreover have "entries rt' t = entries rt t"
    using assms(1) by (auto simp: rt' entries_def wf_tags_def nth_append split: option.splits)
  moreover have "map_of (entries rt' m) = (map_of (entries rt t))(''bucket'' \<mapsto> k)"
    by (simp add: m rt' entries_def M)
  ultimately show ?thesis by (simp add: m rt')
qed

theorem bucketTags_fresh_copy_witness:
  "wf_tags \<lparr>heap = [[(''host'', ''a''), (''bucket'', ''old'')]], orders = [[1]]\<rparr> (Some 0)
   \<and> bucketTags ''p99'' (Some 0)
         \<lparr>heap = [[(''host'', ''a''), (''bucket'', ''old'')]], orders = [[1]]\<rparr>
       = (Some 1, \<lparr>heap = [[(''host'', ''a''), (''bucket'', ''old'')],
                            [(''bucket'', ''p99''), (''host'', ''a'')]], orders = []\<rparr>)
   \<and> map_of (entries \<lparr>heap = [[(''host'', ''a''), (''bucket'', ''old'')],
                               [(''bucket'', ''p99''), (''host'', ''a'')]], orders = []\<rparr>
               (Some 1))
       = (map_of [(''host'', ''a''), (''bucket'', ''old'')])(''bucket'' \<mapsto> ''p99'')
   \<and> entries \<lparr>heap = [[(''host'', ''a''), (''bucket'', ''old'')],
                       [(''bucket'', ''p99''), (''host'', ''a'')]], orders = []\<rparr> (Some 0)
       = [(''host'', ''a''), (''bucket'', ''old'')]"
proof -
  let ?rt = "\<lparr>heap = [[(''host'', ''a''), (''bucket'', ''old'')]], orders = [[1]]\<rparr>"
  have h1: "wf_tags ?rt (Some 0)" by (simp add: wf_tags_def)
  have h2: "bucketTags ''p99'' (Some 0) ?rt
       = (Some 1, \<lparr>heap = [[(''host'', ''a''), (''bucket'', ''old'')],
                            [(''bucket'', ''p99''), (''host'', ''a'')]], orders = []\<rparr>)"
    by (simp add: bucketTags_def next_order_def entries_def store_def Let_def)
  from bucketTags_fresh_copy [OF h1 h2] h1 h2 show ?thesis by (simp add: entries_def)
qed

section \<open>Construction\<close>

text \<open>
  Claim C9. When the address does not parse, \<open>InfluxDBWithTags\<close> logs that failure and
  returns, and the run loop is not entered; when the address parses and the client
  cannot be made, it logs that failure and returns, and the run loop is not entered.
\<close>

theorem InfluxDBWithTags_not_started:
  "(Parse u = Inl e \<longrightarrow>
      InfluxDBWithTags Parse NewClient g d u db ms un pw tg al us mb
        = ([UnableToParseUrl u e], Returned))
   \<and> (Parse u = Inr v
        \<and> snd (NewClient \<lparr>URL = v, Username = un, Password = pw, UnsafeSsl = us\<rparr>) = Some e'
      \<longrightarrow> InfluxDBWithTags Parse NewClient g d u db ms un pw tg al us mb
            = ([UnableToMakeClient e'], Returned))"
  by (auto simp: InfluxDBWithTags_def makeClient_def split: prod.splits)

theorem InfluxDBWithTags_not_started_witness:
  "(\<lambda>s. if s = ''://'' then Inl ''missing protocol scheme'' else Inr s) ''://''
       = Inl ''missing protocol scheme''
   \<and> InfluxDBWithTags (\<lambda>s. if s = ''://'' then Inl ''missing protocol scheme'' else Inr s)
         (\<lambda>c. (Some (0::nat), None)) ([] :: (string \<times> int metric) list) 10 ''://''
         ''db'' ''m'' ''u'' ''p'' None True False 0
       = ([UnableToParseUrl ''://'' ''missing protocol scheme''], Returned)
   \<and> (\<lambda>s. Inr s :: string + string) ''h'' = Inr ''h''
   \<and> snd ((\<lambda>c. (None :: nat option, Some ''refused''))
            \<lparr>URL = ''h'', Username = ''u'', Password = ''p'', UnsafeSsl = False\<rparr>)
       = Some ''refused''
   \<and> InfluxDBWithTags (\<lambda>s. Inr s :: string + string)
         (\<lambda>c. (None :: nat option, Some ''refused'')) ([] :: (string \<times> int metric) list)
         10 ''h'' ''db'' ''m'' ''u'' ''p'' None True False 0
       = ([UnableToMakeClient ''refused''], Returned)"
  using InfluxDBWithTags_not_started
          [of "\<lambda>s. if s = ''://'' then Inl ''missing protocol scheme'' else Inr s"
              "''://''" "''missing protocol scheme''" "\<lambda>c. (Some (0::nat), None)"
              "[] :: (string \<times> int metric) list" 10 "''db''" "''m''" "''u''" "''p''" None
              True False 0]
        InfluxDBWithTags_not_started
          [of "\<lambda>s. Inr s :: string + string" "''h''" "''zz''"
              "\<lambda>c. (None :: nat option, Some ''refused'')"
              "[] :: (string \<times> int metric) list" 10 "''db''" "''m''" "''u''" "''p''" None
              True False 0 "''h''" "''refused''"]
  by simp

section \<open>The translator\<close>

text \<open>
  Claim C7, as amended. For a Counter named \<open>name\<close> whose snapshot counts \<open>N\<close>, the
  translator appends exactly one point; its only field is \<open>name.count\<close> with the
  value \<open>N\<close>; its tag map is the reporter's base tag map itself, so that it has a
  \<open>bucket\<close> tag exactly when the base tags have one.
\<close>

theorem counter_point:
  "send_each float64 r now name (Counter ms) pts rt =
     Inr (pts @ [\<lparr>Measurement = measurement r, Tags = tags r,
                   Fields = [(name @ ''.count'', Int64 (c_Count ms))], Time = now\<rparr>], rt)
   \<and> bucket_of rt \<lparr>Measurement = measurement r, Tags = tags r,
                   Fields = [(name @ ''.count'', Int64 (c_Count ms))], Time = now\<rparr>
       = map_of (entries rt (tags r)) ''bucket''"
  by (simp add: bucket_of_def)

theorem counter_point_witness:
  "send_each sint ex_reporter 20 ''hits'' (Counter \<lparr>c_Count = 5\<rparr>) [] ex_runtime
     = Inr ([\<lparr>Measurement = ''m'', Tags = Some 0,
               Fields = [(''hits.count'', Int64 5)], Time = 20\<rparr>], ex_runtime)
   \<and> bucket_of ex_runtime \<lparr>Measurement = ''m'', Tags = Some 0,
               Fields = [(''hits.count'', Int64 5)], Time = 20\<rparr> = None"
  using counter_point [of sint ex_reporter 20 "''hits''" "\<lparr>c_Count = 5\<rparr>" "[]" ex_runtime]
  by (simp add: ex_reporter_def) (simp add: ex_runtime_def entries_def)

theorem counter_point_bucket_counterexample:
  "send_each sint ex_reporter 20 ''hits'' (Counter \<lparr>c_Count = 5\<rparr>) []
       \<lparr>heap = [[(''bucket'', ''blue'')]], orders = []\<rparr>
     = Inr ([\<lparr>Measurement = ''m'', Tags = Some 0,
               Fields = [(''hits.count'', Int64 5)], Time = 20\<rparr>],
            \<lparr>heap = [[(''bucket'', ''blue'')]], orders = []\<rparr>)
   \<and> entries \<lparr>heap = [[(''bucket'', ''blue'')]], orders = []\<rparr> (tags ex_reporter)
       = [(''bucket'', ''blue'')]
   \<and> bucket_of \<lparr>heap = [[(''bucket'', ''blue'')]], orders = []\<rparr>
        \<lparr>Measurement = ''m'', Tags = Some 0,
           Fields = [(''hits.count'', Int64 5)], Time = 20\<rparr> = Some ''blue''"
  by (simp add: ex_reporter_def bucket_of_def entries_def)

text \<open>
  Claim C8. For a Histogram, and for a Timer, whose percentile computation gives at
  least four values, the translator appends one point per field of the field set: the
  new points, each taken as its \<open>bucket\<close> tag with its field set, are the fields,
  each taken as its key with the single field \<open>name.histogram\<close>
  (\<open>name.timer\<close>) holding its value, in some order; and no two of the new points
  share a bucket. This holds for every order in which the runtime walks the maps.
\<close>

theorem one_point_per_field:
  assumes "wf_tags rt (tags r)"
  shows "(4 \<le> length (h_Percentiles hs [0.5, 0.75, 0.95, 0.99]) \<longrightarrow>
      (\<exists>new rt'. send_each float64 r now name (Histogram hs) pts rt = Inr (pts @ new, rt')
         \<and> mset (map (\<lambda>p. (bucket_of rt' p, Fields p)) new)
             = mset (map (\<lambda>(k, v). (Some k, [(name @ ''.histogram'', Float64 v)]))
                 [(''count'', float64 (h_Count hs)),
                  (''max'', float64 (h_Max hs)),
                  (''mean'', h_Mean hs),
                  (''min'', float64 (h_Min hs)),
                  (''stddev'', h_StdDev hs),
                  (''variance'', h_Variance hs),
                  (''p50'', h_Percentiles hs [0.5, 0.75, 0.95, 0.99] ! 0),
                  (''p75'', h_Percentiles hs [0.5, 0.75, 0.95, 0.99] ! 1),
                  (''p95'', h_Percentiles hs [0.5, 0.75, 0.95, 0.99] ! 2),
                  (''p99'', h_Percentiles hs [0.5, 0.75, 0.95, 0.99] ! 3)])
         \<and> distinct (map (bucket_of rt') new)))
    \<and> (4 \<le> length (t_Percentiles ts [0.5, 0.75, 0.95, 0.99]) \<longrightarrow>
      (\<exists>new rt'. send_each float64 r now name (Timer ts) pts rt = Inr (pts @ new, rt')
         \<and> mset (map (\<lambda>p. (bucket_of rt' p, Fields p)) new)
             = mset (map (\<lambda>(k, v). (Some k, [(name @ ''.timer'', Float64 v)]))
                 [(''count'', float64 (t_Count ts)),
                  (''max'', float64 (t_Max ts)),
                  (''mean'', t_Mean ts),
                  (''min'', float64 (t_Min ts)),
                  (''stddev'', t_StdDev ts),
                  (''variance'', t_Variance ts),
                  (''p50'', t_Percentiles ts [0.5, 0.75, 0.95, 0.99] ! 0),
                  (''p75'', t_Percentiles ts [0.5, 0.75, 0.95, 0.99] ! 1),
                  (''p95'', t_Percentiles ts [0.5, 0.75, 0.95, 0.99] ! 2),
                  (''p99'', t_Percentiles ts [0.5, 0.75, 0.95, 0.99] ! 3),
                  (''m1'', t_Rate1 ts),
                  (''m5'', t_Rate5 ts),
                  (''meanrate'', t_RateMean ts)])
         \<and> distinct (map (bucket_of rt') new)))"
proof (intro conjI impI)
  assume "4 \<le> length (h_Percentiles hs [0.5, 0.75, 0.95, 0.99])"
  then have len: "4 \<le> length (h_Percentiles hs quantiles)" by (simp add: quantiles_def)
  define fs where "fs = histogram_fields float64 hs
      (h_Percentiles hs quantiles ! 0) (h_Percentiles hs quantiles ! 1) (h_Percentiles hs quantiles ! 2) (h_Percentiles hs quantiles ! 3)"
  define key where "key = name @ ''.histogram''"
  have d: "distinct (map fst fs)" by (simp add: fs_def histogram_fields_def)
  have ev: "map (\<lambda>kv. (Some (fst kv), [(key, Float64 (snd kv))])) fs
      = map (\<lambda>(k, v). (Some k, [(name @ ''.histogram'', Float64 v)]))
          [(''count'', float64 (h_Count hs)),
          (''max'', float64 (h_Max hs)),
          (''mean'', h_Mean hs),
          (''min'', float64 (h_Min hs)),
          (''stddev'', h_StdDev hs),
          (''variance'', h_Variance hs),
          (''p50'', h_Percentiles hs [0.5, 0.75, 0.95, 0.99] ! 0),
          (''p75'', h_Percentiles hs [0.5, 0.75, 0.95, 0.99] ! 1),
          (''p95'', h_Percentiles hs [0.5, 0.75, 0.95, 0.99] ! 2),
          (''p99'', h_Percentiles hs [0.5, 0.75, 0.95, 0.99] ! 3)]"
    by (simp add: fs_def histogram_fields_def key_def quantiles_def)
  show "\<exists>new rt'. send_each float64 r now name (Histogram hs) pts rt = Inr (pts @ new, rt')
         \<and> mset (map (\<lambda>p. (bucket_of rt' p, Fields p)) new)
             = mset (map (\<lambda>(k, v). (Some k, [(name @ ''.histogram'', Float64 v)]))
                 [(''count'', float64 (h_Count hs)),
                  (''max'', float64 (h_Max hs)),
                  (''mean'', h_Mean hs),
                  (''min'', float64 (h_Min hs)),
                  (''stddev'', h_StdDev hs),
                  (''variance'', h_Variance hs),
                  (''p50'', h_Percentiles hs [0.5, 0.75, 0.95, 0.99] ! 0),
                  (''p75'', h_Percentiles hs [0.5, 0.75, 0.95, 0.99] ! 1),
                  (''p95'', h_Percentiles hs [0.5, 0.75, 0.95, 0.99] ! 2),
                  (''p99'', h_Percentiles hs [0.5, 0.75, 0.95, 0.99] ! 3)])
         \<and> distinct (map (bucket_of rt') new)"
  proof (rule range_fields_next_order [OF assms, of now key fs pts])
    fix kvs new rt'
    assume 1: "range_fields r now key (range_order (fst (next_order rt)) fs) pts
          (snd (next_order rt)) = (pts @ new, rt')" and
      2: "mset kvs = mset fs" and
      3: "map (bucket_of rt') new = map (\<lambda>kv. Some (fst kv)) kvs" and
      4: "map Fields new = map (\<lambda>kv. [(key, Float64 (snd kv))]) kvs"
    have a: "send_each float64 r now name (Histogram hs) pts rt = Inr (pts @ new, rt')"
      unfolding send_each_Histogram [OF len] using 1 by (simp only: fs_def key_def)
    have b: "mset (map (\<lambda>p. (bucket_of rt' p, Fields p)) new)
             = mset (map (\<lambda>(k, v). (Some k, [(name @ ''.histogram'', Float64 v)]))
                 [(''count'', float64 (h_Count hs)),
                  (''max'', float64 (h_Max hs)),
                  (''mean'', h_Mean hs),
                  (''min'', float64 (h_Min hs)),
                  (''stddev'', h_StdDev hs),
                  (''variance'', h_Variance hs),
                  (''p50'', h_Percentiles hs [0.5, 0.75, 0.95, 0.99] ! 0),
                  (''p75'', h_Percentiles hs [0.5, 0.75, 0.95, 0.99] ! 1),
                  (''p95'', h_Percentiles hs [0.5, 0.75, 0.95, 0.99] ! 2),
                  (''p99'', h_Percentiles hs [0.5, 0.75, 0.95, 0.99] ! 3)])"
      using pairs_of_perm [OF 3 4 2] by (simp only: ev)
    have c: "distinct (map (bucket_of rt') new)"
      by (rule buckets_of_perm(2) [OF 3 2 d])
    from a b c show ?thesis by (intro exI conjI)
  qed
next
  assume "4 \<le> length (t_Percentiles ts [0.5, 0.75, 0.95, 0.99])"
  then have len: "4 \<le> length (t_Percentiles ts quantiles)" by (simp add: quantiles_def)
  define fs where "fs = timer_fields float64 ts
      (t_Percentiles ts quantiles ! 0) (t_Percentiles ts quantiles ! 1) (t_Percentiles ts quantiles ! 2) (t_Percentiles ts quantiles ! 3)"
  define key where "key = name @ ''.timer''"
  have d: "distinct (map fst fs)" by (simp add: fs_def timer_fields_def)
  have ev: "map (\<lambda>kv. (Some (fst kv), [(key, Float64 (snd kv))])) fs
      = map (\<lambda>(k, v). (Some k, [(name @ ''.timer'', Float64 v)]))
          [(''count'', float64 (t_Count ts)),
          (''max'', float64 (t_Max ts)),
          (''mean'', t_Mean ts),
          (''min'', float64 (t_Min ts)),
          (''stddev'', t_StdDev ts),
          (''variance'', t_Variance ts),
          (''p50'', t_Percentiles ts [0.5, 0.75, 0.95, 0.99] ! 0),
          (''p75'', t_Percentiles ts [0.5, 0.75, 0.95, 0.99] ! 1),
          (''p95'', t_Percentiles ts [0.5, 0.75, 0.95, 0.99] ! 2),
          (''p99'', t_Percentiles ts [0.5, 0.75, 0.95, 0.99] ! 3),
          (''m1'', t_Rate1 ts),
          (''m5'', t_Rate5 ts),
          (''meanrate'', t_RateMean ts)]"
    by (simp add: fs_def timer_fields_def key_def quantiles_def)
  show "\<exists>new rt'. send_each float64 r now name (Timer ts) pts rt = Inr (pts @ new, rt')
         \<and> mset (map (\<lambda>p. (bucket_of rt' p, Fields p)) new)
             = mset (map (\<lambda>(k, v). (Some k, [(name @ ''.timer'', Float64 v)]))
                 [(''count'', float64 (t_Count ts)),
                  (''max'', float64 (t_Max ts)),
                  (''mean'', t_Mean ts),
                  (''min'', float64 (t_Min ts)),
                  (''stddev'', t_StdDev ts),
                  (''variance'', t_Variance ts),
                  (''p50'', t_Percentiles ts [0.5, 0.75, 0.95, 0.99] ! 0),
                  (''p75'', t_Percentiles ts [0.5, 0.75, 0.95, 0.99] ! 1),
                  (''p95'', t_Percentiles ts [0.5, 0.75, 0.95, 0.99] ! 2),
                  (''p99'', t_Percentiles ts [0.5, 0.75, 0.95, 0.99] ! 3),
                  (''m1'', t_Rate1 ts),
                  (''m5'', t_Rate5 ts),
                  (''meanrate'', t_RateMean ts)])
         \<and> distinct (map (bucket_of rt') new)"
  proof (rule range_fields_next_order [OF assms, of now key fs pts])
    fix kvs new rt'
    assume 1: "range_fields r now key (range_order (fst (next_order rt)) fs) pts
          (snd (next_order rt)) = (pts @ new, rt')" and
      2: "mset kvs = mset fs" and
      3: "map (bucket_of rt') new = map (\<lambda>kv. Some (fst kv)) kvs" and
      4: "map Fields new = map (\<lambda>kv. [(key, Float64 (snd kv))]) kvs"
    have a: "send_each float64 r now name (Timer ts) pts rt = Inr (pts @ new, rt')"
      unfolding send_each_Timer [OF len] using 1 by (simp only: fs_def key_def)
    have b: "mset (map (\<lambda>p. (bucket_of rt' p, Fields p)) new)
             = mset (map (\<lambda>(k, v). (Some k, [(name @ ''.timer'', Float64 v)]))
                 [(''count'', float64 (t_Count ts)),
                  (''max'', float64 (t_Max ts)),
                  (''mean'', t_Mean ts),
                  (''min'', float64 (t_Min ts)),
                  (''stddev'', t_StdDev ts),
                  (''variance'', t_Variance ts),
                  (''p50'', t_Percentiles ts [0.5, 0.75, 0.95, 0.99] ! 0),
                  (''p75'', t_Percentiles ts [0.5, 0.75, 0.95, 0.99] ! 1),
                  (''p95'', t_Percentiles ts [0.5, 0.75, 0.95, 0.99] ! 2),
                  (''p99'', t_Percentiles ts [0.5, 0.75, 0.95, 0.99] ! 3),
                  (''m1'', t_Rate1 ts),
                  (''m5'', t_Rate5 ts),
                  (''meanrate'', t_RateMean ts)])"
      using pairs_of_perm [OF 3 4 2] by (simp only: ev)
    have c: "distinct (map (bucket_of rt') new)"
      by (rule buckets_of_perm(2) [OF 3 2 d])
    from a b c show ?thesis by (intro exI conjI)
  qed
qed

theorem one_point_per_field_witness:
  "wf_tags ex_runtime (tags ex_reporter)
   \<and> 4 \<le> length (h_Percentiles ex_histogram [0.5, 0.75, 0.95, 0.99])
   \<and> (\<exists>new rt'. send_each sint ex_reporter 20 ''lat'' (Histogram ex_histogram) [] ex_runtime
            = Inr ([] @ new, rt')
         \<and> mset (map (\<lambda>p. (bucket_of rt' p, Fields p)) new)
             = mset (map (\<lambda>(k, v). (Some k, [(''lat'' @ ''.histogram'', Float64 v)]))
                 [(''count'', sint (h_Count ex_histogram)),
                  (''max'', sint (h_Max ex_histogram)),
                  (''mean'', h_Mean ex_histogram),
                  (''min'', sint (h_Min ex_histogram)),
                  (''stddev'', h_StdDev ex_histogram),
                  (''variance'', h_Variance ex_histogram),
                  (''p50'', h_Percentiles ex_histogram [0.5, 0.75, 0.95, 0.99] ! 0),
                  (''p75'', h_Percentiles ex_histogram [0.5, 0.75, 0.95, 0.99] ! 1),
                  (''p95'', h_Percentiles ex_histogram [0.5, 0.75, 0.95, 0.99] ! 2),
                  (''p99'', h_Percentiles ex_histogram [0.5, 0.75, 0.95, 0.99] ! 3)])
         \<and> distinct (map (bucket_of rt') new))
   \<and> 4 \<le> length (t_Percentiles ex_timer [0.5, 0.75, 0.95, 0.99])
   \<and> (\<exists>new rt'. send_each sint ex_reporter 20 ''lat'' (Timer ex_timer) [] ex_runtime
            = Inr ([] @ new, rt')
         \<and> mset (map (\<lambda>p. (bucket_of rt' p, Fields p)) new)
             = mset (map (\<lambda>(k, v). (Some k, [(''lat'' @ ''.timer'', Float64 v)]))
                 [(''count'', sint (t_Count ex_timer)),
                  (''max'', sint (t_Max ex_timer)),
                  (''mean'', t_Mean ex_timer),
                  (''min'', sint (t_Min ex_timer)),
                  (''stddev'', t_StdDev ex_timer),
                  (''variance'', t_Variance ex_timer),
                  (''p50'', t_Percentiles ex_timer [0.5, 0.75, 0.95, 0.99] ! 0),
                  (''p75'', t_Percentiles ex_timer [0.5, 0.75, 0.95, 0.99] ! 1),
                  (''p95'', t_Percentiles ex_timer [0.5, 0.75, 0.95, 0.99] ! 2),
                  (''p99'', t_Percentiles ex_timer [0.5, 0.75, 0.95, 0.99] ! 3),
                  (''m1'', t_Rate1 ex_timer),
                  (''m5'', t_Rate5 ex_timer),
                  (''meanrate'', t_RateMean ex_timer)])
         \<and> distinct (map (bucket_of rt') new))"
proof -
  have h: "4 \<le> length (h_Percentiles ex_histogram [0.5, 0.75, 0.95, 0.99])"
    by (simp add: ex_histogram_def)
  have t: "4 \<le> length (t_Percentiles ex_timer [0.5, 0.75, 0.95, 0.99])"
    by (simp add: ex_timer_def)
  note T = one_point_per_field [OF ex_wf, of ex_histogram sint 20 "''lat''" "[]" ex_timer]
  note 1 = T [THEN conjunct1, THEN mp, OF h]
  note 2 = T [THEN conjunct2, THEN mp, OF t]
  from ex_wf h 1 t 2 show ?thesis by (intro conjI)
qed

text \<open>
  Claim C2. When the percentile computation at 0.5, 0.75, 0.95, 0.99 returns
  \<open>[a, b, c, d]\<close>, then of the points appended for a Histogram (a Timer) exactly one
  is tagged \<open>bucket = p50\<close> and its value is \<open>a\<close>, exactly one \<open>p75\<close> with \<open>b\<close>,
  one \<open>p95\<close> with \<open>c\<close> and one \<open>p99\<close> with \<open>d\<close>, whatever the four values are.
\<close>

theorem percentile_labels_positional:
  assumes "wf_tags rt (tags r)"
  shows "(h_Percentiles hs [0.5, 0.75, 0.95, 0.99] = [a, b, c, d] \<longrightarrow>
      (\<exists>new rt'. send_each float64 r now name (Histogram hs) pts rt = Inr (pts @ new, rt')
         \<and> map Fields (filter (\<lambda>p. bucket_of rt' p = Some ''p50'') new)
             = [[(name @ ''.histogram'', Float64 a)]]
         \<and> map Fields (filter (\<lambda>p. bucket_of rt' p = Some ''p75'') new)
             = [[(name @ ''.histogram'', Float64 b)]]
         \<and> map Fields (filter (\<lambda>p. bucket_of rt' p = Some ''p95'') new)
             = [[(name @ ''.histogram'', Float64 c)]]
         \<and> map Fields (filter (\<lambda>p. bucket_of rt' p = Some ''p99'') new)
             = [[(name @ ''.histogram'', Float64 d)]]))
    \<and> (t_Percentiles ts [0.5, 0.75, 0.95, 0.99] = [a, b, c, d] \<longrightarrow>
      (\<exists>new rt'. send_each float64 r now name (Timer ts) pts rt = Inr (pts @ new, rt')
         \<and> map Fields (filter (\<lambda>p. bucket_of rt' p = Some ''p50'') new)
             = [[(name @ ''.timer'', Float64 a)]]
         \<and> map Fields (filter (\<lambda>p. bucket_of rt' p = Some ''p75'') new)
             = [[(name @ ''.timer'', Float64 b)]]
         \<and> map Fields (filter (\<lambda>p. bucket_of rt' p = Some ''p95'') new)
             = [[(name @ ''.timer'', Float64 c)]]
         \<and> map Fields (filter (\<lambda>p. bucket_of rt' p = Some ''p99'') new)
             = [[(name @ ''.timer'', Float64 d)]]))"
proof (intro conjI impI)
  assume "h_Percentiles hs [0.5, 0.75, 0.95, 0.99] = [a, b, c, d]"
  then have ps: "h_Percentiles hs quantiles = [a, b, c, d]" by (simp add: quantiles_def)
  then have len: "4 \<le> length (h_Percentiles hs quantiles)" by simp
  define fs where "fs = histogram_fields float64 hs a b c d"
  define key where "key = name @ ''.histogram''"
  have se: "send_each float64 r now name (Histogram hs) pts rt =
      Inr (range_fields r now key (range_order (fst (next_order rt)) fs) pts
             (snd (next_order rt)))"
    unfolding send_each_Histogram [OF len] by (simp add: ps fs_def key_def)
  have f50: "filter (\<lambda>kv. fst kv = ''p50'') fs = [(''p50'', a)]"
    and f75: "filter (\<lambda>kv. fst kv = ''p75'') fs = [(''p75'', b)]"
    and f95: "filter (\<lambda>kv. fst kv = ''p95'') fs = [(''p95'', c)]"
    and f99: "filter (\<lambda>kv. fst kv = ''p99'') fs = [(''p99'', d)]"
    by (simp_all add: fs_def histogram_fields_def)
  show "\<exists>new rt'. send_each float64 r now name (Histogram hs) pts rt = Inr (pts @ new, rt')
         \<and> map Fields (filter (\<lambda>p. bucket_of rt' p = Some ''p50'') new)
             = [[(name @ ''.histogram'', Float64 a)]]
         \<and> map Fields (filter (\<lambda>p. bucket_of rt' p = Some ''p75'') new)
             = [[(name @ ''.histogram'', Float64 b)]]
         \<and> map Fields (filter (\<lambda>p. bucket_of rt' p = Some ''p95'') new)
             = [[(name @ ''.histogram'', Float64 c)]]
         \<and> map Fields (filter (\<lambda>p. bucket_of rt' p = Some ''p99'') new)
             = [[(name @ ''.histogram'', Float64 d)]]"
  proof (rule range_fields_next_order [OF assms, of now key fs pts])
    fix kvs new rt'
    assume 1: "range_fields r now key (range_order (fst (next_order rt)) fs) pts
          (snd (next_order rt)) = (pts @ new, rt')" and
      2: "mset kvs = mset fs" and
      3: "map (bucket_of rt') new = map (\<lambda>kv. Some (fst kv)) kvs" and
      4: "map Fields new = map (\<lambda>kv. [(key, Float64 (snd kv))]) kvs"
    have s: "send_each float64 r now name (Histogram hs) pts rt = Inr (pts @ new, rt')"
      by (simp only: se 1)
    note L = labelled_point [OF 3 4, unfolded key_def]
    from s L [OF perm_filter_key [OF 2 f50]] L [OF perm_filter_key [OF 2 f75]]
      L [OF perm_filter_key [OF 2 f95]] L [OF perm_filter_key [OF 2 f99]]
    show ?thesis by (intro exI conjI)
  qed
next
  assume "t_Percentiles ts [0.5, 0.75, 0.95, 0.99] = [a, b, c, d]"
  then have ps: "t_Percentiles ts quantiles = [a, b, c, d]" by (simp add: quantiles_def)
  then have len: "4 \<le> length (t_Percentiles ts quantiles)" by simp
  define fs where "fs = timer_fields float64 ts a b c d"
  define key where "key = name @ ''.timer''"
  have se: "send_each float64 r now name (Timer ts) pts rt =
      Inr (range_fields r now key (range_order (fst (next_order rt)) fs) pts
             (snd (next_order rt)))"
    unfolding send_each_Timer [OF len] by (simp add: ps fs_def key_def)
  have f50: "filter (\<lambda>kv. fst kv = ''p50'') fs = [(''p50'', a)]"
    and f75: "filter (\<lambda>kv. fst kv = ''p75'') fs = [(''p75'', b)]"
    and f95: "filter (\<lambda>kv. fst kv = ''p95'') fs = [(''p95'', c)]"
    and f99: "filter (\<lambda>kv. fst kv = ''p99'') fs = [(''p99'', d)]"
    by (simp_all add: fs_def timer_fields_def)
  show "\<exists>new rt'. send_each float64 r now name (Timer ts) pts rt = Inr (pts @ new, rt')
         \<and> map Fields (filter (\<lambda>p. bucket_of rt' p = Some ''p50'') new)
             = [[(name @ ''.timer'', Float64 a)]]
         \<and> map Fields (filter (\<lambda>p. bucket_of rt' p = Some ''p75'') new)
             = [[(name @ ''.timer'', Float64 b)]]
         \<and> map Fields (filter (\<lambda>p. bucket_of rt' p = Some ''p95'') new)
             = [[(name @ ''.timer'', Float64 c)]]
         \<and> map Fields (filter (\<lambda>p. bucket_of rt' p = Some ''p99'') new)
             = [[(name @ ''.timer'', Float64 d)]]"
  proof (rule range_fields_next_order [OF assms, of now key fs pts])
    fix kvs new rt'
    assume 1: "range_fields r now key (range_order (fst (next_order rt)) fs) pts
          (snd (next_order rt)) = (pts @ new, rt')" and
      2: "mset kvs = mset fs" and
      3: "map (bucket_of rt') new = map (\<lambda>kv. Some (fst kv)) kvs" and
      4: "map Fields new = map (\<lambda>kv. [(key, Float64 (snd kv))]) kvs"
    have s: "send_each float64 r now name (Timer ts) pts rt = Inr (pts @ new, rt')"
      by (simp only: se 1)
    note L = labelled_point [OF 3 4, unfolded key_def]
    from s L [OF perm_filter_key [OF 2 f50]] L [OF perm_filter_key [OF 2 f75]]
      L [OF perm_filter_key [OF 2 f95]] L [OF perm_filter_key [OF 2 f99]]
    show ?thesis by (intro exI conjI)
  qed
qed

theorem percentile_labels_positional_witness:
  "wf_tags ex_runtime (tags ex_reporter)
   \<and> h_Percentiles ex_histogram [0.5, 0.75, 0.95, 0.99] = [40, 30, 20, 10]
   \<and> (\<exists>new rt'. send_each sint ex_reporter 20 ''lat'' (Histogram ex_histogram) [] ex_runtime
            = Inr ([] @ new, rt')
         \<and> map Fields (filter (\<lambda>p. bucket_of rt' p = Some ''p50'') new)
             = [[(''lat'' @ ''.histogram'', Float64 40)]]
         \<and> map Fields (filter (\<lambda>p. bucket_of rt' p = Some ''p75'') new)
             = [[(''lat'' @ ''.histogram'', Float64 30)]]
         \<and> map Fields (filter (\<lambda>p. bucket_of rt' p = Some ''p95'') new)
             = [[(''lat'' @ ''.histogram'', Float64 20)]]
         \<and> map Fields (filter (\<lambda>p. bucket_of rt' p = Some ''p99'') new)
             = [[(''lat'' @ ''.histogram'', Float64 10)]])
   \<and> t_Percentiles ex_timer [0.5, 0.75, 0.95, 0.99] = [40, 30, 20, 10]
   \<and> (\<exists>new rt'. send_each sint ex_reporter 20 ''lat'' (Timer ex_timer) [] ex_runtime
            = Inr ([] @ new, rt')
         \<and> map Fields (filter (\<lambda>p. bucket_of rt' p = Some ''p50'') new)
             = [[(''lat'' @ ''.timer'', Float64 40)]]
         \<and> map Fields (filter (\<lambda>p. bucket_of rt' p = Some ''p75'') new)
             = [[(''lat'' @ ''.timer'', Float64 30)]]
         \<and> map Fields (filter (\<lambda>p. bucket_of rt' p = Some ''p95'') new)
             = [[(''lat'' @ ''.timer'', Float64 20)]]
         \<and> map Fields (filter (\<lambda>p. bucket_of rt' p = Some ''p99'') new)
             = [[(''lat'' @ ''.timer'', Float64 10)]])"
proof -
  have h: "h_Percentiles ex_histogram [0.5, 0.75, 0.95, 0.99] = [40, 30, 20, 10]"
    by (simp add: ex_histogram_def)
  have t: "t_Percentiles ex_timer [0.5, 0.75, 0.95, 0.99] = [40, 30, 20, 10]"
    by (simp add: ex_timer_def)
  note T = percentile_labels_positional
    [OF ex_wf, of ex_histogram 40 30 20 10 sint 20 "''lat''" "[]" ex_timer]
  note 1 = T [THEN conjunct1, THEN mp, OF h]
  note 2 = T [THEN conjunct2, THEN mp, OF t]
  from ex_wf h 1 t 2 show ?thesis by (intro conjI)
qed

section \<open>Tag maps of the points\<close>

text \<open>
  Claim C1, as amended. A send leaves the base tag map as it was. The points it builds for
  a Histogram, a Meter or a Timer each carry a tag map allocated during the send, which
  is not the base tag map, so that a store into it leaves the base tags unchanged; the
  points it builds for a Counter, a Gauge or a GaugeFloat64 carry the base tag map
  itself.
\<close>

theorem point_tags_fresh_or_base:
  assumes "wf_tags rt (tags r)" and "send_points float64 r clock rt = Inr (pts, rt')"
  shows "entries rt' (tags r) = entries rt (tags r)
     \<and> (\<exists>groups. pts = concat groups
          \<and> list_all2 (\<lambda>e g. if bucketed (snd e)
                then (\<forall>p\<in>set g. \<exists>a. Tags p = Some a \<and> Tags p \<noteq> tags r
                        \<and> length (heap rt) \<le> a \<and> a < length (heap rt')
                        \<and> (\<forall>k v. entries (store a k v rt') (tags r) = entries rt' (tags r)))
                else (\<forall>p\<in>set g. Tags p = tags r)) (reg r) groups)"
proof -
  define now where "now = (if align r then Truncate clock (interval r) else clock)"
  have "Each (send_each float64 r now) (reg r) [] rt = Inr (pts, rt')"
    using assms(2) by (simp add: send_points_def Let_def now_def)
  from Each_tags [OF assms(1) this] obtain groups where
    c: "pts = concat groups" and p: "take (length (heap rt)) (heap rt') = heap rt" and
    k: "list_all2 (\<lambda>e g. if bucketed (snd e) then fresh_tags rt rt' g
                         else (\<forall>p\<in>set g. Tags p = tags r)) (reg r) groups"
    by auto
  have 1: "entries rt' (tags r) = entries rt (tags r)"
    by (rule wf_tags_prefix(2) [OF assms(1) p])
  have 2: "list_all2 (\<lambda>e g. if bucketed (snd e)
                then (\<forall>p\<in>set g. \<exists>a. Tags p = Some a \<and> Tags p \<noteq> tags r
                        \<and> length (heap rt) \<le> a \<and> a < length (heap rt')
                        \<and> (\<forall>k v. entries (store a k v rt') (tags r) = entries rt' (tags r)))
                else (\<forall>p\<in>set g. Tags p = tags r)) (reg r) groups"
    using k
  proof (rule list_all2_mono)
    fix e g
    assume a: "if bucketed (snd e) then fresh_tags rt rt' g else (\<forall>p\<in>set g. Tags p = tags r)"
    show "if bucketed (snd e)
                then (\<forall>p\<in>set g. \<exists>a. Tags p = Some a \<and> Tags p \<noteq> tags r
                        \<and> length (heap rt) \<le> a \<and> a < length (heap rt')
                        \<and> (\<forall>k v. entries (store a k v rt') (tags r) = entries rt' (tags r)))
                else (\<forall>p\<in>set g. Tags p = tags r)"
    proof (cases "bucketed (snd e)")
      case False
      with a show ?thesis by simp
    next
      case True
      with a have f: "fresh_tags rt rt' g" by simp
      have "\<forall>p\<in>set g. \<exists>a. Tags p = Some a \<and> Tags p \<noteq> tags r
                        \<and> length (heap rt) \<le> a \<and> a < length (heap rt')
                        \<and> (\<forall>k v. entries (store a k v rt') (tags r) = entries rt' (tags r))"
      proof
        fix p assume "p \<in> set g"
        with f obtain a where t: "Tags p = Some a" and l: "length (heap rt) \<le> a"
          and u: "a < length (heap rt')"
          unfolding fresh_tags_def by blast
        from store_other [OF assms(1) l] t l u
        show "\<exists>a. Tags p = Some a \<and> Tags p \<noteq> tags r
                        \<and> length (heap rt) \<le> a \<and> a < length (heap rt')
                        \<and> (\<forall>k v. entries (store a k v rt') (tags r) = entries rt' (tags r))"
          by simp
      qed
      with True show ?thesis by simp
    qed
  qed
  from 1 c 2 show ?thesis by blast
qed

theorem point_tags_fresh_or_base_witness:
  "wf_tags ex_runtime (tags ex_reporter)
   \<and> send_points sint ex_reporter 27 ex_runtime = Inr (ex_points 20, ex_runtime_after)
   \<and> entries ex_runtime_after (tags ex_reporter) = [(''host'', ''a'')]
   \<and> (\<exists>groups. ex_points 20 = concat groups
          \<and> list_all2 (\<lambda>e g. if bucketed (snd e)
                then (\<forall>p\<in>set g. \<exists>a. Tags p = Some a \<and> Tags p \<noteq> tags ex_reporter
                        \<and> length (heap ex_runtime) \<le> a \<and> a < length (heap ex_runtime_after)
                        \<and> (\<forall>k v. entries (store a k v ex_runtime_after) (tags ex_reporter)
                                   = entries ex_runtime_after (tags ex_reporter)))
                else (\<forall>p\<in>set g. Tags p = tags ex_reporter)) (reg ex_reporter) groups)"
proof -
  note T = point_tags_fresh_or_base [OF ex_wf ex_send_points_aligned]
  have "entries ex_runtime (tags ex_reporter) = [(''host'', ''a'')]"
    by (simp add: entries_def ex_runtime_def ex_reporter_def)
  with T ex_wf ex_send_points_aligned show ?thesis by simp
qed

theorem point_tags_alias_counterexample:
  "send_points sint ex_reporter 27 ex_runtime = Inr (ex_points 20, ex_runtime_after)
   \<and> tags ex_reporter = Some 0
   \<and> Tags (ex_points 20 ! 0) = Some 0
   \<and> entries ex_runtime_after (tags ex_reporter) = [(''host'', ''a'')]
   \<and> entries (store 0 ''bucket'' ''count'' ex_runtime_after) (tags ex_reporter)
       = [(''host'', ''a''), (''bucket'', ''count'')]"
  by (simp add: ex_send_points_aligned)
     (simp add: ex_reporter_def ex_points_def ex_runtime_after_def entries_def store_def)

section \<open>Timestamps of a send\<close>

text \<open>
  Claim C6. With the alignment flag set and a positive interval \<open>I\<close>, every point of a
  send at time \<open>t\<close> carries the time \<open>I * (t div I)\<close>, so that two sends at times
  with the same quotient by \<open>I\<close> give all their points the same time; with the flag
  unset every point carries \<open>t\<close> itself. The interval of a send is positive:
  \<^verbatim>\<open>run\<close> calls \<^verbatim>\<open>send\<close> on the ticks of \<^verbatim>\<open>time.Tick(r.interval)\<close>,
  which has none for a duration that is not positive.
\<close>

theorem aligned_timestamps:
  assumes "send_points float64 r1 t1 rt1 = Inr (pts1, rt1')"
    and "send_points float64 r2 t2 rt2 = Inr (pts2, rt2')"
  shows "(align r1 \<and> align r2 \<and> interval r1 = I \<and> interval r2 = I \<and> 0 < I
            \<and> t1 div I = t2 div I \<longrightarrow>
          (\<forall>p\<in>set pts1. \<forall>q\<in>set pts2. Time p = Time q)
          \<and> (\<forall>p\<in>set pts1. Time p = I * (t1 div I)))
       \<and> (\<not> align r1 \<longrightarrow> (\<forall>p\<in>set pts1. Time p = t1))"
proof (intro conjI impI)
  assume a: "align r1 \<and> align r2 \<and> interval r1 = I \<and> interval r2 = I \<and> 0 < I
            \<and> t1 div I = t2 div I"
  then have al: "align r1" "align r2" and iv: "interval r1 = I" "interval r2 = I"
    and pos: "0 < I" and dv: "t1 div I = t2 div I"
    by simp_all
  have 1: "\<forall>p\<in>set pts1. Time p = I * (t1 div I)"
    using send_points_Time [OF assms(1)] by (simp add: al iv Truncate_eq [OF pos])
  have 2: "\<forall>q\<in>set pts2. Time q = I * (t1 div I)"
    using send_points_Time [OF assms(2)] by (simp add: al iv Truncate_eq [OF pos] dv)
  show "\<forall>p\<in>set pts1. Time p = I * (t1 div I)" by (rule 1)
  show "\<forall>p\<in>set pts1. \<forall>q\<in>set pts2. Time p = Time q" using 1 2 by simp
next
  assume "\<not> align r1"
  then show "\<forall>p\<in>set pts1. Time p = t1" using send_points_Time [OF assms(1)] by simp
qed

theorem aligned_timestamps_witness:
  "send_points sint ex_reporter 27 ex_runtime = Inr (ex_points 20, ex_runtime_after)
   \<and> send_points sint ex_reporter 21 ex_runtime = Inr (ex_points 20, ex_runtime_after)
   \<and> align ex_reporter \<and> interval ex_reporter = 10 \<and> (0::int) < 10
   \<and> (27::int) div 10 = 21 div 10
   \<and> Time (ex_points 20 ! 0) = Time (ex_points 20 ! 4)
   \<and> Time (ex_points 20 ! 0) = 10 * (27 div 10)
   \<and> send_points sint (ex_reporter\<lparr>align := False\<rparr>) 27 ex_runtime
       = Inr (ex_points 27, ex_runtime_after)
   \<and> \<not> align (ex_reporter\<lparr>align := False\<rparr>)
   \<and> Time (ex_points 27 ! 0) = 27"
proof -
  have c: "align ex_reporter" "interval ex_reporter = 10" by (simp_all add: ex_reporter_def)
  have d: "(27::int) div 10 = 21 div 10" by simp
  have m: "ex_points 20 ! 0 \<in> set (ex_points 20)" "ex_points 20 ! 4 \<in> set (ex_points 20)"
    "ex_points 27 ! 0 \<in> set (ex_points 27)"
    by (simp_all add: ex_points_def)
  have 8: "(0::int) < 10" by simp
  have 7: "\<not> align (ex_reporter\<lparr>align := False\<rparr>)" by simp
  from c 8 d have A: "align ex_reporter \<and> align ex_reporter \<and> interval ex_reporter = 10
      \<and> interval ex_reporter = 10 \<and> (0::int) < 10 \<and> (27::int) div 10 = 21 div 10"
    by (intro conjI)
  note B = aligned_timestamps [OF ex_send_points_aligned ex_send_points_21, of 10,
      THEN conjunct1, THEN mp, OF A]
  note C = aligned_timestamps [OF ex_send_points_unaligned ex_send_points_21, of 10,
      THEN conjunct2, THEN mp, OF 7]
  note 4 = bspec [OF bspec [OF B [THEN conjunct1] m(1)] m(2)]
  note 5 = bspec [OF B [THEN conjunct2] m(1)]
  note 6 = bspec [OF C m(3)]
  from ex_send_points_aligned ex_send_points_21 c 8 d 4 5 ex_send_points_unaligned 7 6
  show ?thesis by (intro conjI)
qed

section \<open>Batches and writes\<close>

text \<open>
  Claim C3. With \<open>maxBatchSize = B > 0\<close> and \<open>P\<close> points, send returns; the batches
  are \<open>\<lceil>P / B\<rceil>\<close> in number, none empty nor longer than \<open>B\<close>, all but the last of
  length \<open>B\<close>, and together they are the points in their order; the writes made are
  the first batches in that order, one write each, and all of them when send returns no
  error.
\<close>

theorem batches_partition:
  assumes "0 < maxBatchSize r"
    and "send_points float64 r clock rt = Inr (pts, rt')"
  shows "\<exists>e w' tr. send float64 Write r clock rt w = Some (Inr (e, w', tr, rt'))
     \<and> int (length (batching r pts))
         = (int (length pts) + maxBatchSize r - 1) div maxBatchSize r
     \<and> (\<forall>b\<in>set (batching r pts). b \<noteq> [] \<and> int (length b) \<le> maxBatchSize r)
     \<and> (\<forall>j. Suc j < length (batching r pts)
            \<longrightarrow> int (length (batching r pts ! j)) = maxBatchSize r)
     \<and> concat (batching r pts) = pts
     \<and> (\<exists>k\<le>length (batching r pts).
           tr = map (\<lambda>b. \<lparr>Points = b, Database = database r\<rparr>) (take k (batching r pts)))
     \<and> (e = None \<longrightarrow>
           tr = map (\<lambda>b. \<lparr>Points = b, Database = database r\<rparr>) (batching r pts))"
proof -
  define n where "n = nat (maxBatchSize r)"
  have n: "0 < n" and B: "maxBatchSize r = int n" using assms(1) by (simp_all add: n_def)
  have bs: "batching r pts = chunks n pts" using assms(1) by (simp add: batching_def n_def)
  define res where "res = write_batches Write (client r) (heap rt') (database r)
      (batching r pts) w []"
  obtain e w' tr where res: "res = (e, w', tr)" by (cases res) auto
  have s: "send float64 Write r clock rt w = Some (Inr (e, w', tr, rt'))"
    using send_write_batches [OF assms(2), of Write w] by (simp add: res_def [symmetric] res)
  have 1: "int (length (batching r pts))
         = (int (length pts) + maxBatchSize r - 1) div maxBatchSize r"
  proof -
    have "int (length (chunks n pts)) = int ((length pts + n - 1) div n)"
      by (simp add: length_chunks [OF n])
    also have "\<dots> = int (length pts + n - 1) div int n" by (simp add: zdiv_int)
    also have "int (length pts + n - 1) = int (length pts) + int n - 1" using n by simp
    finally show ?thesis by (simp add: bs B)
  qed
  have 2: "\<forall>b\<in>set (batching r pts). b \<noteq> [] \<and> int (length b) \<le> maxBatchSize r"
    using chunks_sizes [OF n, of _ pts] by (auto simp: bs B)
  have 3: "\<forall>j. Suc j < length (batching r pts)
            \<longrightarrow> int (length (batching r pts ! j)) = maxBatchSize r"
    using chunks_full [OF n, of _ pts] by (simp add: bs B)
  have 4: "concat (batching r pts) = pts" by (simp add: bs concat_chunks [OF n])
  have 5: "\<exists>k\<le>length (batching r pts).
           tr = map (\<lambda>b. \<lparr>Points = b, Database = database r\<rparr>) (take k (batching r pts))"
    using write_batches_prefix [of "batching r pts" Write "client r" "heap rt'" "database r" w "[]"]
    by (simp add: res_def [symmetric] res)
  have 6: "e = None \<longrightarrow>
           tr = map (\<lambda>b. \<lparr>Points = b, Database = database r\<rparr>) (batching r pts)"
  proof
    assume "e = None"
    then have "fst res = None" by (simp add: res)
    then have "\<forall>j<length (batching r pts).
        outcome Write (client r) (heap rt') (database r) (batching r pts) w j = None"
      unfolding res_def by (simp only: write_batches_None_iff)
    from write_batches_all_ok [OF this, of "[]"] show
      "tr = map (\<lambda>b. \<lparr>Points = b, Database = database r\<rparr>) (batching r pts)"
      by (simp add: res_def [symmetric] res)
  qed
  from s 1 2 3 4 5 6 show ?thesis by blast
qed

theorem batches_partition_witness:
  "0 < maxBatchSize ex_reporter
   \<and> send_points sint ex_reporter 27 ex_runtime = Inr (ex_points 20, ex_runtime_after)
   \<and> send sint ex_Write_ok ex_reporter 27 ex_runtime 0
       = Some (Inr (None, 3,
           [\<lparr>Points = take 2 (ex_points 20), Database = ''db''\<rparr>,
            \<lparr>Points = take 2 (drop 2 (ex_points 20)), Database = ''db''\<rparr>,
            \<lparr>Points = drop 4 (ex_points 20), Database = ''db''\<rparr>], ex_runtime_after))
   \<and> int (length (batching ex_reporter (ex_points 20))) = 3
   \<and> concat (batching ex_reporter (ex_points 20)) = ex_points 20
   \<and> map (\<lambda>b. \<lparr>Points = b, Database = database ex_reporter\<rparr>)
         (batching ex_reporter (ex_points 20))
       = [\<lparr>Points = take 2 (ex_points 20), Database = ''db''\<rparr>,
          \<lparr>Points = take 2 (drop 2 (ex_points 20)), Database = ''db''\<rparr>,
          \<lparr>Points = drop 4 (ex_points 20), Database = ''db''\<rparr>]"
proof -
  have h: "0 < maxBatchSize ex_reporter" by (simp add: ex_reporter_def)
  note T = batches_partition [OF h ex_send_points_aligned, of ex_Write_ok 0]
  from T have n: "int (length (batching ex_reporter (ex_points 20)))
         = (int (length (ex_points 20)) + maxBatchSize ex_reporter - 1)
             div maxBatchSize ex_reporter"
    by (elim exE conjE)
  from T have c: "concat (batching ex_reporter (ex_points 20)) = ex_points 20"
    by (elim exE conjE)
  from T obtain e w' tr where
    s: "send sint ex_Write_ok ex_reporter 27 ex_runtime 0
          = Some (Inr (e, w', tr, ex_runtime_after))"
    and a: "e = None \<longrightarrow>
           tr = map (\<lambda>b. \<lparr>Points = b, Database = database ex_reporter\<rparr>)
                  (batching ex_reporter (ex_points 20))"
    by (elim exE conjE) (rule that)
  from s have e: "e = None"
    and tr: "tr = [\<lparr>Points = take 2 (ex_points 20), Database = ''db''\<rparr>,
          \<lparr>Points = take 2 (drop 2 (ex_points 20)), Database = ''db''\<rparr>,
          \<lparr>Points = drop 4 (ex_points 20), Database = ''db''\<rparr>]"
    by (simp_all add: ex_send_ok)
  have n': "int (length (batching ex_reporter (ex_points 20))) = 3"
    unfolding n by (simp add: ex_reporter_def ex_points_def)
  from a [THEN mp, OF e] tr
  have m: "map (\<lambda>b. \<lparr>Points = b, Database = database ex_reporter\<rparr>)
         (batching ex_reporter (ex_points 20))
       = [\<lparr>Points = take 2 (ex_points 20), Database = ''db''\<rparr>,
          \<lparr>Points = take 2 (drop 2 (ex_points 20)), Database = ''db''\<rparr>,
          \<lparr>Points = drop 4 (ex_points 20), Database = ''db''\<rparr>]"
    by (simp only:)
  from h ex_send_points_aligned ex_send_ok n' c m show ?thesis by (intro conjI)
qed

text \<open>
  Claim C4, as amended. With \<open>maxBatchSize \<le> 0\<close>, send makes exactly one write, of
  all the points, when there is at least one point, and returns what that write
  returns; when there is no point it makes no write and returns no error.
\<close>

theorem unbounded_single_batch:
  assumes "maxBatchSize r \<le> 0"
    and "send_points float64 r clock rt = Inr (pts, rt')"
  shows "\<exists>e w'. send float64 Write r clock rt w
        = Some (Inr (e, w',
            (if pts = [] then [] else [\<lparr>Points = pts, Database = database r\<rparr>]), rt'))
     \<and> (pts \<noteq> [] \<longrightarrow>
          (e, w') = Write (client r) w (heap rt') \<lparr>Points = pts, Database = database r\<rparr>)
     \<and> (pts = [] \<longrightarrow> e = None \<and> w' = w)"
proof (cases "pts = []")
  case True
  then have "batching r pts = []" by (simp add: batching_def)
  then show ?thesis using True by (simp add: send_write_batches [OF assms(2)])
next
  case False
  have "chunks (length pts) pts = take (length pts) pts # chunks (length pts) (drop (length pts) pts)"
    using False by (intro chunks_step) simp_all
  then have bs: "batching r pts = [pts]" using assms(1) by (simp add: batching_def)
  obtain e w' where W: "Write (client r) w (heap rt') \<lparr>Points = pts, Database = database r\<rparr>
      = (e, w')"
    by (cases "Write (client r) w (heap rt') \<lparr>Points = pts, Database = database r\<rparr>")
  show ?thesis
    using False by (cases e) (simp_all add: send_write_batches [OF assms(2)] bs W)
qed

theorem unbounded_single_batch_witness:
  "maxBatchSize (ex_reporter\<lparr>maxBatchSize := 0\<rparr>) \<le> 0
   \<and> send_points sint (ex_reporter\<lparr>maxBatchSize := 0\<rparr>) 27 ex_runtime
       = Inr (ex_points 20, ex_runtime_after)
   \<and> ex_points 20 \<noteq> []
   \<and> send sint ex_Write_ok (ex_reporter\<lparr>maxBatchSize := 0\<rparr>) 27 ex_runtime 0
       = Some (Inr (None, 1, [\<lparr>Points = ex_points 20, Database = ''db''\<rparr>], ex_runtime_after))
   \<and> maxBatchSize (ex_reporter\<lparr>reg := [], maxBatchSize := 0\<rparr>) \<le> 0
   \<and> send_points sint (ex_reporter\<lparr>reg := [], maxBatchSize := 0\<rparr>) 27 ex_runtime
       = Inr ([], ex_runtime)
   \<and> send sint ex_Write_ok (ex_reporter\<lparr>reg := [], maxBatchSize := 0\<rparr>) 27 ex_runtime 0
       = Some (Inr (None, 0, [], ex_runtime))"
proof -
  have h1: "maxBatchSize (ex_reporter\<lparr>maxBatchSize := 0\<rparr>) \<le> 0" by simp
  have h2: "maxBatchSize (ex_reporter\<lparr>reg := [], maxBatchSize := 0\<rparr>) \<le> 0" by simp
  have ne: "ex_points 20 \<noteq> []" by (simp add: ex_points_def)
  have db: "database (ex_reporter\<lparr>maxBatchSize := 0\<rparr>) = ''db''"
    by (simp add: ex_reporter_def)
  from unbounded_single_batch [OF h1 ex_send_points_unbounded, of ex_Write_ok 0]
  obtain e w' where
    s: "send sint ex_Write_ok (ex_reporter\<lparr>maxBatchSize := 0\<rparr>) 27 ex_runtime 0
        = Some (Inr (e, w',
            (if ex_points 20 = [] then []
             else [\<lparr>Points = ex_points 20,
                     Database = database (ex_reporter\<lparr>maxBatchSize := 0\<rparr>)\<rparr>]),
            ex_runtime_after))"
    and p: "ex_points 20 \<noteq> [] \<longrightarrow>
          (e, w') = ex_Write_ok (client (ex_reporter\<lparr>maxBatchSize := 0\<rparr>)) 0
             (heap ex_runtime_after)
             \<lparr>Points = ex_points 20,
               Database = database (ex_reporter\<lparr>maxBatchSize := 0\<rparr>)\<rparr>"
    by (elim exE conjE) (rule that)
  from p [THEN mp, OF ne] have ew: "e = None" "w' = 1" by (simp_all add: ex_Write_ok_def)
  from s have 1: "send sint ex_Write_ok (ex_reporter\<lparr>maxBatchSize := 0\<rparr>) 27 ex_runtime 0
       = Some (Inr (None, 1, [\<lparr>Points = ex_points 20, Database = ''db''\<rparr>], ex_runtime_after))"
    by (simp add: ne ew db)
  from unbounded_single_batch [OF h2 ex_send_points_empty, of ex_Write_ok 0]
  obtain e2 w2 where
    s2: "send sint ex_Write_ok (ex_reporter\<lparr>reg := [], maxBatchSize := 0\<rparr>) 27 ex_runtime 0
        = Some (Inr (e2, w2,
            (if ([] :: int Point list) = [] then []
             else [\<lparr>Points = [],
                     Database = database (ex_reporter\<lparr>reg := [], maxBatchSize := 0\<rparr>)\<rparr>]),
            ex_runtime))"
    and p2: "([] :: int Point list) = [] \<longrightarrow> e2 = None \<and> w2 = 0"
    by (elim exE conjE) (rule that)
  from p2 have "e2 = None" "w2 = 0" by simp_all
  with s2 have 2: "send sint ex_Write_ok (ex_reporter\<lparr>reg := [], maxBatchSize := 0\<rparr>) 27
        ex_runtime 0 = Some (Inr (None, 0, [], ex_runtime))"
    by simp
  from h1 ex_send_points_unbounded ne 1 h2 ex_send_points_empty 2 show ?thesis
    by (intro conjI)
qed

theorem unbounded_no_points_counterexample:
  "maxBatchSize (ex_reporter\<lparr>reg := [], maxBatchSize := 0\<rparr>) \<le> 0
   \<and> send_points sint (ex_reporter\<lparr>reg := [], maxBatchSize := 0\<rparr>) 27 ex_runtime
       = Inr ([], ex_runtime)
   \<and> send sint ex_Write_ok (ex_reporter\<lparr>reg := [], maxBatchSize := 0\<rparr>) 27 ex_runtime 0
       = Some (Inr (None, 0, [], ex_runtime))"
  by (simp add: send_def ex_send_points_empty send_batches_def send_loop_done)

text \<open>
  Claim C5. When the \<open>k\<close>-th batch write is the first to fail, send returns that
  error, the writes made are those of the batches up to and including the \<open>k\<close>-th,
  and the world is as these writes left it; send returns no error exactly when every
  batch write succeeds, and then every batch has been written.
\<close>

theorem fail_fast:
  assumes "send_points float64 r clock rt = Inr (pts, rt')"
  shows "\<exists>e w' tr. send float64 Write r clock rt w = Some (Inr (e, w', tr, rt'))
     \<and> (\<forall>k err. k < length (batching r pts)
            \<and> (\<forall>j<k. outcome Write (client r) (heap rt') (database r) (batching r pts) w j
                       = None)
            \<and> outcome Write (client r) (heap rt') (database r) (batching r pts) w k = Some err
          \<longrightarrow> e = Some err
              \<and> map Points tr = take (Suc k) (batching r pts)
              \<and> w' = world_after Write (client r) (heap rt') (database r)
                        (take (Suc k) (batching r pts)) w)
     \<and> (e = None \<longleftrightarrow>
          (\<forall>j<length (batching r pts).
             outcome Write (client r) (heap rt') (database r) (batching r pts) w j = None))
     \<and> (e = None \<longrightarrow> map Points tr = batching r pts
           \<and> w' = world_after Write (client r) (heap rt') (database r) (batching r pts) w)"
proof -
  define bs where "bs = batching r pts"
  define res where "res = write_batches Write (client r) (heap rt') (database r) bs w []"
  obtain e w' tr where res: "res = (e, w', tr)" by (cases res) auto
  have s: "send float64 Write r clock rt w = Some (Inr (e, w', tr, rt'))"
    using send_write_batches [OF assms, of Write w]
    by (simp add: bs_def [symmetric] res_def [symmetric] res)
  have 1: "\<forall>k err. k < length bs
            \<and> (\<forall>j<k. outcome Write (client r) (heap rt') (database r) bs w j = None)
            \<and> outcome Write (client r) (heap rt') (database r) bs w k = Some err
          \<longrightarrow> e = Some err
              \<and> map Points tr = take (Suc k) bs
              \<and> w' = world_after Write (client r) (heap rt') (database r) (take (Suc k) bs) w"
  proof (intro allI impI)
    fix k err
    assume a: "k < length bs
            \<and> (\<forall>j<k. outcome Write (client r) (heap rt') (database r) bs w j = None)
            \<and> outcome Write (client r) (heap rt') (database r) bs w k = Some err"
    then have "res = (Some err, world_after Write (client r) (heap rt') (database r) (take (Suc k) bs) w,
        [] @ map (\<lambda>b. \<lparr>Points = b, Database = database r\<rparr>) (take (Suc k) bs))"
      unfolding res_def by (intro write_batches_first_fail) simp_all
    then show "e = Some err
              \<and> map Points tr = take (Suc k) bs
              \<and> w' = world_after Write (client r) (heap rt') (database r) (take (Suc k) bs) w"
      by (simp add: res o_def)
  qed
  have 2: "e = None \<longleftrightarrow>
          (\<forall>j<length bs. outcome Write (client r) (heap rt') (database r) bs w j = None)"
    using write_batches_None_iff [of Write "client r" "heap rt'" "database r" bs w "[]"]
    by (simp add: res_def [symmetric] res)
  have 3: "e = None \<longrightarrow> map Points tr = bs
           \<and> w' = world_after Write (client r) (heap rt') (database r) bs w"
  proof
    assume "e = None"
    with 2 have "\<forall>j<length bs. outcome Write (client r) (heap rt') (database r) bs w j = None"
      by simp
    from write_batches_all_ok [OF this, of "[]"]
    show "map Points tr = bs
           \<and> w' = world_after Write (client r) (heap rt') (database r) bs w"
      by (simp add: res_def [symmetric] res o_def)
  qed
  from s 1 2 3 show ?thesis unfolding bs_def by blast
qed

theorem fail_fast_witness:
  "send_points sint ex_reporter 27 ex_runtime = Inr (ex_points 20, ex_runtime_after)
   \<and> 1 < length (batching ex_reporter (ex_points 20))
   \<and> outcome ex_Write_fail (client ex_reporter) (heap ex_runtime_after) (database ex_reporter)
        (batching ex_reporter (ex_points 20)) 0 0 = None
   \<and> outcome ex_Write_fail (client ex_reporter) (heap ex_runtime_after) (database ex_reporter)
        (batching ex_reporter (ex_points 20)) 0 1 = Some ''timeout''
   \<and> (\<exists>tr. send sint ex_Write_fail ex_reporter 27 ex_runtime 0
              = Some (Inr (Some ''timeout'', 2, tr, ex_runtime_after))
          \<and> map Points tr = [take 2 (ex_points 20), take 2 (drop 2 (ex_points 20))])
   \<and> (\<exists>tr. send sint ex_Write_ok ex_reporter 27 ex_runtime 0
              = Some (Inr (None, 3, tr, ex_runtime_after))
          \<and> map Points tr = batching ex_reporter (ex_points 20))"
proof -
  define bs where "bs = batching ex_reporter (ex_points 20)"
  define out where "out = outcome ex_Write_fail (client ex_reporter) (heap ex_runtime_after)
        (database ex_reporter) bs 0"
  have bs: "bs = [take 2 (ex_points 20), take 2 (drop 2 (ex_points 20)), drop 4 (ex_points 20)]"
    by (simp only: bs_def ex_batching)
  have l: "1 < length bs" by (simp add: bs)
  have o0: "out 0 = None"
    by (simp add: out_def bs outcome_def world_after_def ex_Write_fail_def)
  have o1: "out 1 = Some ''timeout''"
    by (simp add: out_def bs outcome_def world_after_def ex_Write_fail_def)
  have wa: "world_after ex_Write_fail (client ex_reporter) (heap ex_runtime_after)
        (database ex_reporter) (take (Suc 1) bs) 0 = 2"
    by (simp add: bs world_after_def ex_Write_fail_def)
  have ok: "\<forall>j<length bs. outcome ex_Write_ok (client ex_reporter) (heap ex_runtime_after)
        (database ex_reporter) bs 0 j = None"
    by (simp add: outcome_def ex_Write_ok_def)
  have wo: "world_after ex_Write_ok (client ex_reporter) (heap ex_runtime_after)
        (database ex_reporter) bs 0 = 3"
    by (simp add: bs world_after_def ex_Write_ok_def)
  from fail_fast [OF ex_send_points_aligned, of ex_Write_fail 0,
      folded bs_def, folded out_def]
  obtain e w' tr where
    s: "send sint ex_Write_fail ex_reporter 27 ex_runtime 0
          = Some (Inr (e, w', tr, ex_runtime_after))"
    and f: "\<forall>k err. k < length bs \<and> (\<forall>j<k. out j = None) \<and> out k = Some err
          \<longrightarrow> e = Some err \<and> map Points tr = take (Suc k) bs
              \<and> w' = world_after ex_Write_fail (client ex_reporter) (heap ex_runtime_after)
                        (database ex_reporter) (take (Suc k) bs) 0"
    by (elim exE conjE) (rule that)
  have K: "1 < length bs \<and> (\<forall>j<1. out j = None) \<and> out 1 = Some ''timeout''"
    using l o0 o1 by simp
  note R = f [THEN spec, THEN spec, THEN mp, OF K]
  have e: "e = Some ''timeout''" by (rule R [THEN conjunct1])
  have t: "map Points tr = take (Suc 1) bs" by (rule R [THEN conjunct2, THEN conjunct1])
  have w: "w' = 2" using R [THEN conjunct2, THEN conjunct2] by (simp only: wa)
  have t': "map Points tr = [take 2 (ex_points 20), take 2 (drop 2 (ex_points 20))]"
    unfolding t by (simp add: bs)
  have "send sint ex_Write_fail ex_reporter 27 ex_runtime 0
              = Some (Inr (Some ''timeout'', 2, tr, ex_runtime_after))"
    using s by (simp only: e w)
  with t' have 1: "\<exists>tr. send sint ex_Write_fail ex_reporter 27 ex_runtime 0
              = Some (Inr (Some ''timeout'', 2, tr, ex_runtime_after))
          \<and> map Points tr = [take 2 (ex_points 20), take 2 (drop 2 (ex_points 20))]"
    by (intro exI conjI)
  from fail_fast [OF ex_send_points_aligned, of ex_Write_ok 0, folded bs_def]
  obtain e2 w2 tr2 where
    s2: "send sint ex_Write_ok ex_reporter 27 ex_runtime 0
           = Some (Inr (e2, w2, tr2, ex_runtime_after))"
    and i2: "e2 = None \<longleftrightarrow> (\<forall>j<length bs. outcome ex_Write_ok (client ex_reporter)
        (heap ex_runtime_after) (database ex_reporter) bs 0 j = None)"
    and a2: "e2 = None \<longrightarrow> map Points tr2 = bs
           \<and> w2 = world_after ex_Write_ok (client ex_reporter) (heap ex_runtime_after)
                    (database ex_reporter) bs 0"
    by (elim exE conjE) (rule that)
  have e2: "e2 = None" using i2 ok by (simp only:)
  note R2 = a2 [THEN mp, OF e2]
  have w2: "w2 = 3" using R2 [THEN conjunct2] by (simp only: wo)
  have "send sint ex_Write_ok ex_reporter 27 ex_runtime 0
              = Some (Inr (None, 3, tr2, ex_runtime_after))"
    using s2 by (simp only: e2 w2)
  with R2 [THEN conjunct1] have 2: "\<exists>tr. send sint ex_Write_ok ex_reporter 27 ex_runtime 0
              = Some (Inr (None, 3, tr, ex_runtime_after))
          \<and> map Points tr = bs"
    by (intro exI conjI)
  from ex_send_points_aligned l o0 o1 1 2 show ?thesis
    unfolding bs_def out_def by (intro conjI)
qed

end
